theory Spec2Isabelle
  imports Main "HOL-Library.Sublist"
begin

section \<open>Python string and path primitives used by ingram.py\<close>

text \<open>
  Paths are Python \<open>str\<close> values, modelled as \<open>string\<close>. The functions below follow
  CPython's \<open>posixpath\<close> and \<open>str\<close> methods that \<open>ingram.py\<close> calls. The file system of the
  model is keyed by path strings, so paths are taken to be in normal form (no \<open>.\<close>, \<open>..\<close> or
  empty components); \<open>os.path.normpath\<close> is therefore not modelled.
\<close>

type_synonym path = string

definition last4 :: "string \<Rightarrow> string" where
  \<comment> \<open>the slice \<open>s[-4:]\<close>: the whole string when it is shorter than four characters\<close>
  "last4 s = drop (length s - 4) s"

definition rfind :: "char \<Rightarrow> string \<Rightarrow> int" where
  \<comment> \<open>\<open>str.rfind\<close> of a single character: the highest index, or -1\<close>
  "rfind c s =
     (if c \<in> set s then int (length s) - 1 - int (length (takeWhile (\<lambda>x. x \<noteq> c) (rev s)))
      else - 1)"

definition splitext :: "string \<Rightarrow> string \<times> string" where
  \<comment> \<open>\<open>os.path.splitext\<close>: split at the last dot of the last component, unless that
      component has only dots before it\<close>
  "splitext p =
     (let sepIndex = rfind CHR ''/'' p;
          dotIndex = rfind CHR ''.'' p
      in if dotIndex > sepIndex \<and>
            list_ex (\<lambda>c. c \<noteq> CHR ''.'')
              (take (nat (dotIndex - (sepIndex + 1))) (drop (nat (sepIndex + 1)) p))
         then (take (nat dotIndex) p, drop (nat dotIndex) p)
         else (p, []))"

definition rstrip_slash :: "string \<Rightarrow> string" where
  "rstrip_slash s = rev (dropWhile (\<lambda>c. c = CHR ''/'') (rev s))"

definition lstrip_slash :: "string \<Rightarrow> string" where
  \<comment> \<open>\<open>s.lstrip("/")\<close>\<close>
  "lstrip_slash s = dropWhile (\<lambda>c. c = CHR ''/'') s"

definition dirname :: "path \<Rightarrow> path" where
  \<comment> \<open>\<open>os.path.dirname\<close>\<close>
  "dirname p =
     (let i = nat (rfind CHR ''/'' p + 1);
          head = take i p
      in if head \<noteq> [] \<and> head \<noteq> replicate (length head) CHR ''/''
         then rstrip_slash head else head)"

definition join2 :: "path \<Rightarrow> path \<Rightarrow> path" where
  \<comment> \<open>one step of the loop in \<open>os.path.join\<close>\<close>
  "join2 a b =
     (if b \<noteq> [] \<and> hd b = CHR ''/'' then b
      else if a = [] \<or> last a = CHR ''/'' then a @ b
      else a @ ''/'' @ b)"

definition join :: "path \<Rightarrow> path list \<Rightarrow> path" where
  \<comment> \<open>\<open>os.path.join(a, *p)\<close>\<close>
  "join a ps = foldl join2 a ps"

function remove_all :: "string \<Rightarrow> string \<Rightarrow> string" where
  \<comment> \<open>\<open>s.replace(old, "")\<close>: every non-overlapping occurrence, left to right, is deleted\<close>
  "remove_all old s =
     (if s = [] then []
      else if old \<noteq> [] \<and> take (length old) s = old
           then remove_all old (drop (length old) s)
      else hd s # remove_all old (tl s))"
  by pat_completeness auto
termination
  by (relation "measure (\<lambda>(old, s). length s)") auto

fun split_on :: "char \<Rightarrow> string \<Rightarrow> string list" where
  \<comment> \<open>\<open>s.split(c)\<close>: always at least one piece\<close>
  "split_on c [] = [[]]"
| "split_on c (x # xs) =
     (if x = c then [] # split_on c xs
      else (case split_on c xs of [] \<Rightarrow> [[x]] | p # ps \<Rightarrow> (x # p) # ps))"

fun join_with :: "string \<Rightarrow> string list \<Rightarrow> string" where
  \<comment> \<open>\<open>sep.join(parts)\<close>\<close>
  "join_with sep [] = []"
| "join_with sep [p] = p"
| "join_with sep (p # q # ps) = p @ sep @ join_with sep (q # ps)"

definition digit :: "nat \<Rightarrow> char" where
  "digit d = ''0123456789'' ! d"

function dec :: "nat \<Rightarrow> string" where
  \<comment> \<open>decimal digits of a natural number\<close>
  "dec n = (if n < 10 then [digit n] else dec (n div 10) @ [digit (n mod 10)])"
  by pat_completeness auto
termination
  by (relation "measure (\<lambda>n. n)") auto

definition fmt04 :: "nat \<Rightarrow> string" where
  \<comment> \<open>the f-string \<open>f'{i:04}'\<close>: decimal, zero-padded on the left to width 4\<close>
  "fmt04 i = replicate (4 - length (dec i)) CHR ''0'' @ dec i"

declare remove_all.simps [simp del]
declare dec.simps [simp del]

section \<open>The world the program runs in\<close>

text \<open>
  Exceptions are values. Every function with an effect takes the world and returns the
  world together with the exception it raised, if any: the effects made before a raise
  stay in the world, as they do on disk.
\<close>

datatype error =
    RuntimeError          \<comment> \<open>\<open>get_config\<close>: the config file does not exist\<close>
  | ConfigError           \<comment> \<open>\<open>config.get\<close>: no such section or option\<close>
  | ConnectError          \<comment> \<open>opening a session failed\<close>
  | TransferError         \<comment> \<open>a listing or a transfer failed\<close>
  | PersistenceError      \<comment> \<open>the run history could not be written\<close>
  | KeyboardInterrupt
  | AttributeError        \<comment> \<open>an attribute of \<open>None\<close> was used\<close>
  | TypeError
  | ValueError
  | FileNotFoundError
  | FileExistsError
  | BadZipFile

datatype content =
    Blob string                          \<comment> \<open>bytes that are not a zip archive\<close>
  | ZipArchive "(string \<times> string) list"   \<comment> \<open>a zip archive: its members in order, name and bytes\<close>

datatype event =
    SessionOpen nat              \<comment> \<open>a session was opened; sessions are numbered as they are requested\<close>
  | Retrieve nat path path       \<comment> \<open>a transfer was started on a session: remote file, local file\<close>
  | SessionClose nat
  | PoolTerminate
  | MakeDirs path                \<comment> \<open>a call of \<open>os.makedirs\<close> or \<open>os.mkdir\<close>\<close>
  | WriteFile path               \<comment> \<open>a file was opened for writing and written\<close>
  | DownloadTask path "nat option" \<comment> \<open>\<open>download_file\<close> was entered: remote file, the global \<open>pool\<close> then\<close>
  | ExtractTask path path        \<comment> \<open>an extraction was entered: archive, target directory\<close>
  | Checkpoint                   \<comment> \<open>\<open>save_run_history\<close> was called\<close>

record globals =
  host :: "string option"
  user :: "string option"
  passwd :: "string option"
  pool :: "nat option"
  cover_size :: "string option"

definition module_globals :: globals where
  \<comment> \<open>lines 29-33: all five module-level names start as \<open>None\<close>\<close>
  "module_globals = \<lparr>host = None, user = None, passwd = None, pool = None, cover_size = None\<rparr>"

record world =
  files :: "(path \<times> content) list"
  dirs :: "path set"
  next_session :: nat
  history :: "nat option"
  trace :: "event list"
  glob :: globals

type_synonym res = "error option \<times> world"

definition emit :: "event \<Rightarrow> world \<Rightarrow> world" where
  "emit e s = s\<lparr>trace := trace s @ [e]\<rparr>"

fun seq :: "(world \<Rightarrow> res) list \<Rightarrow> world \<Rightarrow> res" where
  \<comment> \<open>statements in sequence: the first raise ends the block\<close>
  "seq [] s = (None, s)"
| "seq (f # fs) s = (case f s of (None, s') \<Rightarrow> seq fs s' | (Some e, s') \<Rightarrow> (Some e, s'))"

definition for_each :: "('a \<Rightarrow> world \<Rightarrow> res) \<Rightarrow> 'a list \<Rightarrow> world \<Rightarrow> res" where
  \<comment> \<open>a \<open>for\<close> loop over a list\<close>
  "for_each f xs = seq (map f xs)"

subsection \<open>File system calls\<close>

definition path_exists :: "world \<Rightarrow> path \<Rightarrow> bool" where
  \<comment> \<open>\<open>os.path.exists\<close>\<close>
  "path_exists s p = (p \<in> dirs s \<or> map_of (files s) p \<noteq> None)"

definition write_file :: "path \<Rightarrow> content \<Rightarrow> world \<Rightarrow> world" where
  \<comment> \<open>\<open>open(p, "wb")\<close> and write: an existing file is replaced\<close>
  "write_file p c s =
     emit (WriteFile p) (s\<lparr>files := (p, c) # filter (\<lambda>e. fst e \<noteq> p) (files s)\<rparr>)"

function parents :: "path \<Rightarrow> path list" where
  \<comment> \<open>the directories above a path, nearest first\<close>
  "parents p =
     (let d = dirname p
      in if d = [] \<or> length p \<le> length d then [] else d # parents d)"
  by pat_completeness auto
termination
  by (relation "measure length") auto

declare parents.simps [simp del]

definition makedirs :: "bool \<Rightarrow> path \<Rightarrow> world \<Rightarrow> res" where
  \<comment> \<open>\<open>os.makedirs(p, exist_ok=...)\<close>: the leaf and every missing directory above it\<close>
  "makedirs exist_ok p s =
     (let s1 = emit (MakeDirs p) s
      in if p \<in> dirs s1 then (if exist_ok then (None, s1) else (Some FileExistsError, s1))
         else if map_of (files s1) p \<noteq> None then (Some FileExistsError, s1)
         else (None, s1\<lparr>dirs := dirs s1 \<union> insert p (set (parents p))\<rparr>))"

subsection \<open>The zipfile module\<close>

definition open_zip :: "world \<Rightarrow> path \<Rightarrow> error + (string \<times> string) list" where
  \<comment> \<open>\<open>ZipFile(file, "r")\<close>\<close>
  "open_zip s file =
     (case map_of (files s) file of
        None \<Rightarrow> Inl FileNotFoundError
      | Some (Blob b) \<Rightarrow> Inl BadZipFile
      | Some (ZipArchive members) \<Rightarrow> Inr members)"

definition namelist :: "(string \<times> string) list \<Rightarrow> string list" where
  "namelist members = map fst members"

definition getinfo :: "(string \<times> string) list \<Rightarrow> string \<Rightarrow> string option" where
  \<comment> \<open>\<open>ZipFile.getinfo\<close>: of members with the same name the last one is found\<close>
  "getinfo members name = map_of (rev members) name"

definition arcname :: "string \<Rightarrow> string" where
  \<comment> \<open>the member name as \<open>ZipFile._extract_member\<close> cleans it: empty, \<open>.\<close> and \<open>..\<close>
      components are dropped\<close>
  "arcname name =
     join_with ''/'' (filter (\<lambda>x. x \<noteq> [] \<and> x \<noteq> ''.'' \<and> x \<noteq> ''..'') (split_on CHR ''/'' name))"

definition extract_member :: "string \<Rightarrow> string \<Rightarrow> path \<Rightarrow> world \<Rightarrow> res" where
  \<comment> \<open>\<open>ZipFile._extract_member\<close>: the member is written below the target directory,
      whatever is there already; missing directories above it are made\<close>
  "extract_member name data targetdir s =
     (let arc = arcname name;
          is_dir = (name \<noteq> [] \<and> last name = CHR ''/'')
      in if arc = [] \<and> \<not> is_dir then (Some ValueError, s)
         else
           let targetpath = join2 targetdir arc;
               upperdirs = dirname targetpath
           in seq [(\<lambda>s. if upperdirs \<noteq> [] \<and> \<not> path_exists s upperdirs
                          then makedirs False upperdirs s else (None, s)),
                   (\<lambda>s. if is_dir
                          then (if targetpath \<in> dirs s then (None, s)
                                else (None, (emit (MakeDirs targetpath) s)\<lparr>dirs := insert targetpath (dirs s)\<rparr>))
                          else (None, write_file targetpath (Blob data) s))] s)"

definition zip_extract :: "(string \<times> string) list \<Rightarrow> string \<Rightarrow> path \<Rightarrow> world \<Rightarrow> res" where
  \<comment> \<open>\<open>zf.extract(name, path)\<close>\<close>
  "zip_extract members name targetdir s =
     (case getinfo members name of
        None \<Rightarrow> (Some ValueError, s)
      | Some data \<Rightarrow> extract_member name data targetdir s)"

definition zip_extractall :: "(string \<times> string) list \<Rightarrow> path \<Rightarrow> world \<Rightarrow> res" where
  \<comment> \<open>\<open>zf.extractall(path)\<close>: every member in order\<close>
  "zip_extractall members targetdir =
     for_each (\<lambda>(name, data). extract_member name data targetdir) members"

subsection \<open>The multiprocessing pool\<close>

text \<open>
  \<open>Pool.starmap\<close> cuts the argument list into chunks. A worker runs the tasks of a chunk
  one after the other; a task that raises ends its chunk. Every chunk is run, and when
  all are done \<open>starmap\<close> re-raises an exception if a chunk raised one. The workers of
  the model run one after the other, in the order of the chunks, and the first chunk
  that raised gives the exception. Workers are forked: they see the globals of the
  parent as they were.
\<close>

definition chunksize :: "nat \<Rightarrow> nat \<Rightarrow> nat" where
  \<comment> \<open>\<open>chunksize, extra = divmod(len(iterable), len(pool) * 4); if extra: chunksize += 1\<close>\<close>
  "chunksize n procs =
     (if n mod (procs * 4) = 0 then n div (procs * 4) else n div (procs * 4) + 1)"

function chunked :: "nat \<Rightarrow> 'a list \<Rightarrow> 'a list list" where
  "chunked n xs = (if n = 0 \<or> xs = [] then [] else take n xs # chunked n (drop n xs))"
  by pat_completeness auto
termination
  by (relation "measure (\<lambda>(n, xs). length xs)") auto

declare chunked.simps [simp del]

fun run_chunks :: "('a \<Rightarrow> world \<Rightarrow> res) \<Rightarrow> 'a list list \<Rightarrow> world \<Rightarrow> res" where
  "run_chunks f [] s = (None, s)"
| "run_chunks f (c # cs) s =
     (case for_each f c s of
        (r, s1) \<Rightarrow>
          (case run_chunks f cs s1 of
             (r', s2) \<Rightarrow> ((case r of None \<Rightarrow> r' | Some e \<Rightarrow> Some e), s2)))"

definition starmap :: "nat \<Rightarrow> ('a \<Rightarrow> world \<Rightarrow> res) \<Rightarrow> 'a list \<Rightarrow> world \<Rightarrow> res" where
  "starmap procs f items = run_chunks f (chunked (chunksize (length items) procs) items)"

section \<open>What ingram.py is given\<close>

text \<open>
  The command line, the config file, the FTP server and the helpers of
  \<open>ingram_data_services.ftp\<close> and \<open>ingram_data_services.utils\<close> are parameters of the
  model. The server may answer each session differently, so its answers take the number
  of the session.
\<close>

record env =
  config_section :: string                                   \<comment> \<open>\<open>args.config_section\<close>\<close>
  config_file :: "(string \<times> string \<Rightarrow> string option) option"  \<comment> \<open>the config file, if it exists: section and option to text\<close>
  expanduser :: "path \<Rightarrow> path"                                \<comment> \<open>\<open>os.path.expanduser\<close>\<close>
  cpu_count :: nat                                            \<comment> \<open>\<open>os.cpu_count()\<close>\<close>
  ftp_connect :: "nat \<Rightarrow> error option"                        \<comment> \<open>\<open>IngramFTP(host, user, passwd)\<close>\<close>
  get_cover_files :: "string option \<Rightarrow> error + path list"
  get_onix_files :: "error + path list"
  get_onix_bklst_files :: "error + path list"
  get_reference_files :: "error + path list"
  ftp_download_file :: "nat \<Rightarrow> path \<Rightarrow> error + content"       \<comment> \<open>\<open>ftp.download_file\<close>: what the server sends\<close>
  get_local_path :: "path \<Rightarrow> path \<Rightarrow> path"
  get_files_matching :: "(path \<times> content) list \<Rightarrow> path \<Rightarrow> string \<Rightarrow> path list"
  clock :: nat                                                \<comment> \<open>the time \<open>save_run_history\<close> records\<close>
  history_writable :: bool

definition processes :: "env \<Rightarrow> nat" where
  \<comment> \<open>\<open>Pool()\<close>: \<open>os.cpu_count() or 1\<close> workers\<close>
  "processes env = (if cpu_count env = 0 then 1 else cpu_count env)"

definition config_get :: "env \<Rightarrow> string \<Rightarrow> error + string" where
  \<comment> \<open>\<open>get_config()\<close> followed by \<open>config.get(section, option)\<close>\<close>
  "config_get env option =
     (case config_file env of
        None \<Rightarrow> Inl RuntimeError
      | Some cfg \<Rightarrow>
          (case cfg (config_section env, option) of
             None \<Rightarrow> Inl ConfigError
           | Some v \<Rightarrow> Inr v))"

text \<open>
  Modelled from the spec: a session of \<open>ingram_data_services.ftp.IngramFTP\<close>, whose
  source is not in the repository's files. The spec's Remote Session is opened with host,
  user and password, fails to open with a connect error, and \<open>close()\<close> releases the
  connection. Python's \<open>with\<close> statement closes the session on every way out of its body
  once it was opened.
\<close>

definition with_session :: "env \<Rightarrow> (nat \<Rightarrow> world \<Rightarrow> res) \<Rightarrow> world \<Rightarrow> res" where
  "with_session env body s =
     (let n = next_session s;
          s1 = s\<lparr>next_session := Suc n\<rparr>
      in case ftp_connect env n of
           Some e \<Rightarrow> (Some e, s1)
         | None \<Rightarrow>
             (case body n (emit (SessionOpen n) s1) of
                (r, s2) \<Rightarrow> (r, emit (SessionClose n) s2)))"

text \<open>
  Modelled from the spec: \<open>ingram_data_services.utils.save_run_history\<close>, whose source is
  not in the repository's files. The spec's \<open>recordSuccessfulRun\<close> persists the new
  checkpoint, and a failure to write it is a fatal PersistenceError.
\<close>

definition save_run_history :: "env \<Rightarrow> world \<Rightarrow> res" where
  "save_run_history env s =
     (let s1 = emit Checkpoint s
      in if history_writable env then (None, s1\<lparr>history := Some (clock env)\<rparr>)
         else (Some PersistenceError, s1))"

section \<open>ingram.py\<close>

definition download_file :: "env \<Rightarrow> path \<times> path \<Rightarrow> world \<Rightarrow> res" where
  \<comment> \<open>lines 104-116; the argument is the tuple \<open>(remote_file, download_dir)\<close>\<close>
  "download_file env = (\<lambda>(remote_file, download_dir) s0.
     let s = emit (DownloadTask remote_file (pool (glob s0))) s0;
         local_file = get_local_path env remote_file download_dir
     in with_session env (\<lambda>ftp s.
          let s1 = emit (Retrieve ftp remote_file local_file) s
          in case ftp_download_file env ftp remote_file of
               Inr c \<Rightarrow> (None, write_file local_file c s1)
             | Inl e \<Rightarrow>
                 if e = KeyboardInterrupt
                 then (case pool (glob s1) of
                         None \<Rightarrow> (Some AttributeError, s1)
                       | Some p \<Rightarrow> (None, emit PoolTerminate s1))
                 else (Some e, s1)) s)"

definition listings :: "env \<Rightarrow> string option \<Rightarrow> error + (path list \<times> path list \<times> path list \<times> path list)" where
  \<comment> \<open>lines 125-132: the four listings, in order; the first that raises ends them\<close>
  "listings env cs =
     (case get_cover_files env cs of Inl e \<Rightarrow> Inl e | Inr cover_paths \<Rightarrow>
     (case get_onix_files env of Inl e \<Rightarrow> Inl e | Inr onix_paths \<Rightarrow>
     (case get_onix_bklst_files env of Inl e \<Rightarrow> Inl e | Inr onix_bklst_paths \<Rightarrow>
     (case get_reference_files env of Inl e \<Rightarrow> Inl e | Inr ref_paths \<Rightarrow>
        Inr (cover_paths, onix_paths, onix_bklst_paths, ref_paths)))))"

definition download_batches :: "env \<Rightarrow> (path \<times> path) list list \<Rightarrow> world \<Rightarrow> res" where
  \<comment> \<open>lines 141-145: one \<open>starmap\<close> after the other on the same pool\<close>
  "download_batches env batches =
     seq (map (\<lambda>batch. starmap (processes env) (download_file env) batch) batches)"

definition download_data_files :: "env \<Rightarrow> path \<Rightarrow> world \<Rightarrow> res" where
  \<comment> \<open>lines 119-145\<close>
  "download_data_files env download_dir s =
     (let n = next_session s;
          s1 = s\<lparr>next_session := Suc n\<rparr>
      in case ftp_connect env n of
           Some e \<Rightarrow> (Some e, s1)
         | None \<Rightarrow>
             let s2 = emit (SessionOpen n) s1
             in (case listings env (cover_size (glob s2)) of
                   Inl e \<Rightarrow> (Some e, emit (SessionClose n) s2)
                 | Inr (cover_paths, onix_paths, onix_bklst_paths, ref_paths) \<Rightarrow>
                     download_batches env
                       [map (\<lambda>p. (p, download_dir)) cover_paths,
                        map (\<lambda>p. (p, download_dir)) onix_paths,
                        map (\<lambda>p. (p, download_dir)) onix_bklst_paths,
                        map (\<lambda>p. (p, download_dir)) ref_paths]
                       (emit (SessionClose n) s2)))"

definition extract_cover_entry :: "(string \<times> string) list \<Rightarrow> path \<Rightarrow> string \<Rightarrow> world \<Rightarrow> res" where
  \<comment> \<open>lines 154-158: the body of the loop over \<open>zf.namelist()\<close>\<close>
  "extract_cover_entry zf target_dir f s =
     (let subdir = fst (splitext f);
          filepath = join target_dir [last4 subdir, f]
      in if \<not> path_exists s filepath
         then zip_extract zf f (join target_dir [last4 subdir]) s
         else (None, s))"

definition extract_cover_zip :: "path \<times> path \<Rightarrow> world \<Rightarrow> res" where
  \<comment> \<open>lines 148-158; the argument is the tuple \<open>(file, target_dir)\<close>\<close>
  "extract_cover_zip = (\<lambda>(file, target_dir) s0.
     let s = emit (ExtractTask file target_dir) s0
     in case open_zip s file of
          Inl e \<Rightarrow> (Some e, s)
        | Inr zf \<Rightarrow> for_each (extract_cover_entry zf target_dir) (namelist zf) s)"

definition extract_zip :: "path \<times> path \<Rightarrow> world \<Rightarrow> res" where
  \<comment> \<open>lines 161-164\<close>
  "extract_zip = (\<lambda>(file, target_dir) s0.
     let s = emit (ExtractTask file target_dir) s0
     in case open_zip s file of
          Inl e \<Rightarrow> (Some e, s)
        | Inr zf \<Rightarrow> zip_extractall zf target_dir s)"

definition onix_extract_dir :: "path \<Rightarrow> path \<Rightarrow> path \<Rightarrow> path" where
  \<comment> \<open>lines 171-172\<close>
  "onix_extract_dir download_dir working_dir z =
     join working_dir [lstrip_slash (remove_all download_dir (dirname z))]"

definition unzip_onix_threaded :: "env \<Rightarrow> path list \<Rightarrow> path \<Rightarrow> path \<Rightarrow> world \<Rightarrow> res" where
  \<comment> \<open>lines 167-177\<close>
  "unzip_onix_threaded env data_zips download_dir working_dir =
     starmap (processes env) extract_zip
       (map (\<lambda>z. (z, onix_extract_dir download_dir working_dir z)) data_zips)"

definition shard_dirs :: "path \<Rightarrow> string \<Rightarrow> path list" where
  \<comment> \<open>lines 185-186: the directory names of the loop, in order\<close>
  "shard_dirs working_dir cs =
     map (\<lambda>i. join working_dir [''Imageswk'', cs, fmt04 i]) [0..<10000]"

definition unzip_covers_threaded :: "env \<Rightarrow> path list \<Rightarrow> path \<Rightarrow> world \<Rightarrow> res" where
  \<comment> \<open>lines 180-195; \<open>os.path.join\<close> raises TypeError on a \<open>cover_size\<close> that is \<open>None\<close>\<close>
  "unzip_covers_threaded env cover_zips working_dir s =
     (case cover_size (glob s) of
        None \<Rightarrow> (Some TypeError, s)
      | Some cs \<Rightarrow>
          seq [for_each (makedirs True) (shard_dirs working_dir cs),
               starmap (processes env) extract_cover_zip
                 (map (\<lambda>z. (z, join working_dir [''Imageswk'', cs])) cover_zips)] s)"

definition set_connection :: "env \<Rightarrow> world \<Rightarrow> res" where
  \<comment> \<open>lines 205-212: the config file is read and the globals host, user, passwd are set\<close>
  "set_connection env s =
     (case config_get env ''host'' of Inl e \<Rightarrow> (Some e, s) | Inr h \<Rightarrow>
     (case config_get env ''user'' of
        Inl e \<Rightarrow> (Some e, s\<lparr>glob := (glob s)\<lparr>host := Some h\<rparr>\<rparr>)
      | Inr u \<Rightarrow>
     (case config_get env ''passwd'' of
        Inl e \<Rightarrow> (Some e, s\<lparr>glob := (glob s)\<lparr>host := Some h, user := Some u\<rparr>\<rparr>)
      | Inr pw \<Rightarrow>
        (None, s\<lparr>glob := (glob s)\<lparr>host := Some h, user := Some u, passwd := Some pw\<rparr>\<rparr>))))"

definition main :: "env \<Rightarrow> world \<Rightarrow> res" where
  \<comment> \<open>lines 198-241; the logger is not modelled\<close>
  "main env s0 =
     (case set_connection env s0 of
        (Some e, s) \<Rightarrow> (Some e, s)
      | (None, s) \<Rightarrow>
     (case config_get env ''download_dir'' of Inl e \<Rightarrow> (Some e, s) | Inr dd \<Rightarrow>
     (case config_get env ''working_dir'' of Inl e \<Rightarrow> (Some e, s) | Inr wd \<Rightarrow>
     (case config_get env ''cover_size'' of Inl e \<Rightarrow> (Some e, s) | Inr cs \<Rightarrow>
        let download_dir = expanduser env dd;
            working_dir = expanduser env wd
        in seq
            [download_data_files env download_dir,
             (\<lambda>s. unzip_covers_threaded env
                     (get_files_matching env (files s) (join download_dir [''Imageswk'']) ''*.zip'')
                     working_dir s),
             (\<lambda>s. unzip_onix_threaded env
                     (get_files_matching env (files s) (join download_dir [''ONIX'']) ''*.zip'')
                     download_dir working_dir s),
             (\<lambda>s. unzip_onix_threaded env
                     (get_files_matching env (files s) (join download_dir [''ONIX_BKLST'']) ''*.zip'')
                     download_dir working_dir s),
             save_run_history env]
            (s\<lparr>glob := (glob s)\<lparr>cover_size := Some cs\<rparr>\<rparr>)))))"

section \<open>A small world to run the program in\<close>

definition empty_world :: world where
  "empty_world =
     \<lparr>files = [], dirs = {}, next_session = 0, history = None, trace = [], glob = module_globals\<rparr>"

section \<open>What a run may change\<close>

text \<open>
  \<open>frame P s s'\<close>: from \<open>s\<close> to \<open>s'\<close> the trace only grew, by events that satisfy \<open>P\<close>; the run
  history and the global \<open>pool\<close> are the same; no directory disappeared and no session
  number was given back.
\<close>

definition frame :: "(event \<Rightarrow> bool) \<Rightarrow> world \<Rightarrow> world \<Rightarrow> bool" where
  "frame P s s' =
     ((\<exists>evs. trace s' = trace s @ evs \<and> list_all P evs) \<and>
      history s' = history s \<and> pool (glob s') = pool (glob s) \<and> dirs s \<subseteq> dirs s' \<and>
      next_session s \<le> next_session s')"

definition new_events :: "world \<Rightarrow> world \<Rightarrow> event list" where
  \<comment> \<open>the events of a run from \<open>s\<close> to \<open>s'\<close>\<close>
  "new_events s s' = drop (length (trace s)) (trace s')"

fun is_fs_event :: "event \<Rightarrow> bool" where
  "is_fs_event (MakeDirs p) = True"
| "is_fs_event (WriteFile p) = True"
| "is_fs_event _ = False"

fun is_extract_event :: "event \<Rightarrow> bool" where
  "is_extract_event (ExtractTask z t) = True"
| "is_extract_event e = is_fs_event e"

fun is_download_event :: "nat option \<Rightarrow> event \<Rightarrow> bool" where
  \<comment> \<open>the events of the download phase, run with the global \<open>pool\<close> equal to \<open>g\<close>\<close>
  "is_download_event g (DownloadTask r p) = (p = g)"
| "is_download_event g (SessionOpen n) = True"
| "is_download_event g (Retrieve n r l) = True"
| "is_download_event g (SessionClose n) = True"
| "is_download_event g PoolTerminate = True"
| "is_download_event g (WriteFile p) = True"
| "is_download_event g _ = False"

section \<open>The stages of main\<close>

text \<open>
  \<open>pipeline\<close> names the statements of \<open>main\<close> from the download to the last extraction
  (lines 221-237); \<open>main\<close> runs them and then \<open>save_run_history\<close>.
\<close>

definition pipeline :: "env \<Rightarrow> path \<Rightarrow> path \<Rightarrow> (world \<Rightarrow> res) list" where
  "pipeline env download_dir working_dir =
     [download_data_files env download_dir,
      (\<lambda>s. unzip_covers_threaded env
              (get_files_matching env (files s) (join download_dir [''Imageswk'']) ''*.zip'')
              working_dir s),
      (\<lambda>s. unzip_onix_threaded env
              (get_files_matching env (files s) (join download_dir [''ONIX'']) ''*.zip'')
              download_dir working_dir s),
      (\<lambda>s. unzip_onix_threaded env
              (get_files_matching env (files s) (join download_dir [''ONIX_BKLST'']) ''*.zip'')
              download_dir working_dir s)]"

fun is_stage_event :: "nat option \<Rightarrow> event \<Rightarrow> bool" where
  \<comment> \<open>an event of the stages before the checkpoint, run with the global \<open>pool\<close> equal to \<open>g\<close>\<close>
  "is_stage_event g Checkpoint = False"
| "is_stage_event g (DownloadTask r p) = (p = g)"
| "is_stage_event g e = True"

definition configured :: "env \<Rightarrow> bool" where
  \<comment> \<open>the config file exists and its section has the six options \<open>main\<close> reads\<close>
  "configured env =
     list_all (\<lambda>option. case config_get env option of Inl e \<Rightarrow> False | Inr v \<Rightarrow> True)
       [''host'', ''user'', ''passwd'', ''download_dir'', ''working_dir'', ''cover_size'']"

definition onix_world :: world where
  \<comment> \<open>an ONIX archive was downloaded, and an earlier run left \<open>a.xml\<close> in the working directory\<close>
  "onix_world =
     \<lparr>files = [(''/d/ONIX/o.zip'', ZipArchive [(''a.xml'', ''NEW'')]), (''/w/ONIX/a.xml'', Blob ''OLD'')],
      dirs = {''/w'', ''/w/ONIX'', ''/d'', ''/d/ONIX''}, next_session = 0, history = None, trace = [],
      glob = module_globals\<rparr>"

fun task_pools :: "event list \<Rightarrow> nat option list" where
  \<comment> \<open>the value of the global \<open>pool\<close> at each entry of \<open>download_file\<close>, in order\<close>
  "task_pools [] = []"
| "task_pools (DownloadTask r p # es) = p # task_pools es"
| "task_pools (e # es) = task_pools es"

definition ex_config :: "string \<times> string \<Rightarrow> string option" where
  "ex_config = map_of
     [((''default'', ''host''), ''ftp.example.com''), ((''default'', ''user''), ''u''),
      ((''default'', ''passwd''), ''p''), ((''default'', ''download_dir''), ''/d''),
      ((''default'', ''working_dir''), ''/w''), ((''default'', ''cover_size''), ''j400w'')]"

definition ex_env :: env where
  \<comment> \<open>a server that lists one reference file and nothing else; every transfer succeeds\<close>
  "ex_env =
     \<lparr>config_section = ''default'', config_file = Some ex_config, expanduser = (\<lambda>p. p),
      cpu_count = 2, ftp_connect = (\<lambda>n. None),
      get_cover_files = (\<lambda>cs. Inr []), get_onix_files = Inr [], get_onix_bklst_files = Inr [],
      get_reference_files = Inr [''/Reference/r1.zip''],
      ftp_download_file = (\<lambda>n p. Inr (ZipArchive [(''ref.txt'', ''R'')])),
      get_local_path = (\<lambda>remote dir. dir @ remote),
      get_files_matching = (\<lambda>fs root pat.
         filter (\<lambda>p. prefix (root @ ''/'') p \<and> suffix ''.zip'' p) (map fst fs)),
      clock = 1000, history_writable = True\<rparr>"

section \<open>Sessions in a trace\<close>

fun bracket :: "(nat \<times> bool) option \<Rightarrow> event list \<Rightarrow> bool" where
  \<comment> \<open>a check of the session events of a trace, from the session that is open now (with
      whether it has made a transfer) or \<open>None\<close>: a session is opened only when none is
      open, a transfer runs on the open session and is its first, a close closes the open
      session, and at the end no session is open\<close>
  "bracket cur [] = (cur = None)"
| "bracket cur (SessionOpen n # es) = (cur = None \<and> bracket (Some (n, False)) es)"
| "bracket cur (Retrieve n r l # es) = (cur = Some (n, False) \<and> bracket (Some (n, True)) es)"
| "bracket cur (SessionClose n # es) =
     ((cur = Some (n, False) \<or> cur = Some (n, True)) \<and> bracket None es)"
| "bracket cur (e # es) = bracket cur es"

fun opened :: "event list \<Rightarrow> nat list" where
  \<comment> \<open>the sessions opened, in order\<close>
  "opened [] = []"
| "opened (SessionOpen n # es) = n # opened es"
| "opened (e # es) = opened es"

fun is_session_event :: "event \<Rightarrow> bool" where
  "is_session_event (SessionOpen n) = True"
| "is_session_event (Retrieve n r l) = True"
| "is_session_event (SessionClose n) = True"
| "is_session_event e = False"

definition sess :: "world \<Rightarrow> world \<Rightarrow> bool" where
  \<comment> \<open>from \<open>s\<close> to \<open>s'\<close> the trace grew by events that pass \<open>bracket\<close>, and the sessions
      opened have new, increasing numbers\<close>
  "sess s s' =
     (\<exists>evs. trace s' = trace s @ evs \<and> bracket None evs \<and> sorted_wrt (<) (opened evs) \<and>
            list_all (\<lambda>n. next_session s \<le> n \<and> n < next_session s') (opened evs) \<and>
            next_session s \<le> next_session s')"

section \<open>Events of a run and a run of the example\<close>

definition ex_configured :: world where
  "ex_configured = empty_world\<lparr>glob := \<lparr>host = Some ''ftp.example.com'', user = Some ''u'',
      passwd = Some ''p'', pool = None, cover_size = Some ''j400w''\<rparr>\<rparr>"

definition ex_downloaded :: world where
  "ex_downloaded = ex_configured
     \<lparr>files := [(''/d/Reference/r1.zip'', ZipArchive [(''ref.txt'', ''R'')])],
      next_session := 2,
      trace := [SessionOpen 0, SessionClose 0, DownloadTask ''/Reference/r1.zip'' None,
                SessionOpen 1, Retrieve 1 ''/Reference/r1.zip'' ''/d/Reference/r1.zip'',
                WriteFile ''/d/Reference/r1.zip'', SessionClose 1]\<rparr>"

fun extracted :: "event list \<Rightarrow> path list" where
  \<comment> \<open>the archives whose extraction was entered, in order\<close>
  "extracted [] = []"
| "extracted (ExtractTask z t # es) = z # extracted es"
| "extracted (e # es) = extracted es"

fun downloaded :: "event list \<Rightarrow> path list" where
  \<comment> \<open>the remote files whose download was entered, in order\<close>
  "downloaded [] = []"
| "downloaded (DownloadTask r p # es) = r # downloaded es"
| "downloaded (e # es) = downloaded es"

section \<open>A server with a failing transfer\<close>

definition fail_env :: env where
  \<comment> \<open>one worker; five cover archives, of which the first cannot be transferred; one ONIX
      archive and one reference archive\<close>
  "fail_env = ex_env
     \<lparr>cpu_count := 1,
      get_cover_files := (\<lambda>cs. Inr [''/Imageswk/c1.zip'', ''/Imageswk/c2.zip'', ''/Imageswk/c3.zip'',
                                    ''/Imageswk/c4.zip'', ''/Imageswk/c5.zip'']),
      get_onix_files := Inr [''/ONIX/o1.zip''],
      ftp_download_file := (\<lambda>n p. if p = ''/Imageswk/c1.zip'' then Inl TransferError
                                   else Inr (ZipArchive []))\<rparr>"

definition fail_listed :: world where
  \<comment> \<open>the configured world after the listing session of \<open>download_data_files\<close>\<close>
  "fail_listed = ex_configured\<lparr>next_session := Suc 0, trace := [SessionOpen 0, SessionClose 0]\<rparr>"

section \<open>A server with an archive in every category\<close>

definition feed_env :: env where
  \<comment> \<open>a server that lists one archive in each of the four categories; every transfer succeeds\<close>
  "feed_env = ex_env
     \<lparr>get_cover_files := (\<lambda>cs. Inr [''/Imageswk/c1.zip'']),
      get_onix_files := Inr [''/ONIX/o1.zip''],
      get_onix_bklst_files := Inr [''/ONIX_BKLST/b1.zip''],
      ftp_download_file := (\<lambda>n p. Inr (ZipArchive
         (if p = ''/Imageswk/c1.zip'' then [(''9780141439518.jpg'', ''JPEG'')]
          else if p = ''/ONIX/o1.zip'' then [(''a.xml'', ''A'')]
          else if p = ''/ONIX_BKLST/b1.zip'' then [(''b.xml'', ''B'')]
          else [(''ref.txt'', ''R'')])))\<rparr>"

definition feed_downloaded :: world where
  \<comment> \<open>the configured world after \<open>download_data_files\<close> on that server\<close>
  "feed_downloaded = ex_configured
     \<lparr>files := [(''/d/Reference/r1.zip'', ZipArchive [(''ref.txt'', ''R'')]),
                (''/d/ONIX_BKLST/b1.zip'', ZipArchive [(''b.xml'', ''B'')]),
                (''/d/ONIX/o1.zip'', ZipArchive [(''a.xml'', ''A'')]),
                (''/d/Imageswk/c1.zip'', ZipArchive [(''9780141439518.jpg'', ''JPEG'')])],
      next_session := 5,
      trace := [SessionOpen 0, SessionClose 0,
                DownloadTask ''/Imageswk/c1.zip'' None, SessionOpen 1,
                Retrieve 1 ''/Imageswk/c1.zip'' ''/d/Imageswk/c1.zip'',
                WriteFile ''/d/Imageswk/c1.zip'', SessionClose 1,
                DownloadTask ''/ONIX/o1.zip'' None, SessionOpen 2,
                Retrieve 2 ''/ONIX/o1.zip'' ''/d/ONIX/o1.zip'',
                WriteFile ''/d/ONIX/o1.zip'', SessionClose 2,
                DownloadTask ''/ONIX_BKLST/b1.zip'' None, SessionOpen 3,
                Retrieve 3 ''/ONIX_BKLST/b1.zip'' ''/d/ONIX_BKLST/b1.zip'',
                WriteFile ''/d/ONIX_BKLST/b1.zip'', SessionClose 3,
                DownloadTask ''/Reference/r1.zip'' None, SessionOpen 4,
                Retrieve 4 ''/Reference/r1.zip'' ''/d/Reference/r1.zip'',
                WriteFile ''/d/Reference/r1.zip'', SessionClose 4]\<rparr>"

section \<open>Events of a cover worker\<close>

fun worker_event :: "path set \<Rightarrow> event \<Rightarrow> bool" where
  \<comment> \<open>an event of an extraction worker that makes none of the directories \<open>D\<close>\<close>
  "worker_event D (MakeDirs p) = (p \<notin> D)"
| "worker_event D (WriteFile p) = True"
| "worker_event D (ExtractTask z t) = True"
| "worker_event D e = False"

definition bucket_name :: "string \<Rightarrow> bool" where
  \<comment> \<open>a member name without \<open>/\<close> whose shard key is one of \<open>0000\<close> to \<open>9999\<close>\<close>
  "bucket_name f =
     (f \<noteq> [] \<and> CHR ''/'' \<notin> set f \<and> last4 (fst (splitext f)) \<in> set (map fmt04 [0..<10000]))"

definition archives_bucketed :: "path list \<Rightarrow> (path \<times> content) list \<Rightarrow> bool" where
  \<comment> \<open>every member of each of the archives \<open>zips\<close> has such a name\<close>
  "archives_bucketed zips fs =
     list_all (\<lambda>z. case map_of fs z of
                     None \<Rightarrow> True
                   | Some (Blob b) \<Rightarrow> True
                   | Some (ZipArchive zf) \<Rightarrow> list_all bucket_name (namelist zf)) zips"

fun is_unpack_event :: "event \<Rightarrow> bool" where
  \<comment> \<open>an extraction is entered or a file is written: no directory is made\<close>
  "is_unpack_event (WriteFile p) = True"
| "is_unpack_event (ExtractTask z t) = True"
| "is_unpack_event e = False"

definition covers_ready :: "path \<Rightarrow> string \<Rightarrow> path list \<Rightarrow> world \<Rightarrow> bool" where
  \<comment> \<open>the shard directories exist and every member of the archives is named for one of them\<close>
  "covers_ready wd cs zips t = (set (shard_dirs wd cs) \<subseteq> dirs t \<and> archives_bucketed zips (files t))"

section \<open>The directory of a flat extraction\<close>

definition prefix_removed :: "path \<Rightarrow> path \<Rightarrow> path" where
  \<comment> \<open>the claim's words: the zip's parent directory with the download directory prefix
      removed (and, as in the code, leading \<open>/\<close> stripped)\<close>
  "prefix_removed download_dir z =
     (let d = dirname z
      in lstrip_slash (if prefix download_dir d then drop (length download_dir) d else d))"

definition slip_world :: world where
  \<comment> \<open>the download directory is \<open>/ONIX\<close>; one ONIX archive was downloaded\<close>
  "slip_world = ex_configured\<lparr>files := [(''/ONIX/ONIX/o1.zip'', ZipArchive [(''a.xml'', ''A'')])]\<rparr>"

section \<open>Facts about the primitives\<close>

lemma for_each_Nil [simp]: "for_each f [] s = (None, s)"
  by (simp add: for_each_def)

lemma for_each_Cons:
  "for_each f (x # xs) s = (case f x s of (None, s') \<Rightarrow> for_each f xs s' | (Some e, s') \<Rightarrow> (Some e, s'))"
  unfolding for_each_def by simp


lemma splitext_stem_take: "\<exists>n. fst (splitext p) = take n p"
  by (auto simp: splitext_def Let_def intro: exI [of _ "length p"])


lemma split_on_nonempty: "split_on c s \<noteq> []"
  by (induction s) (auto split: list.splits)

lemma join_with_hd: "ps \<noteq> [] \<Longrightarrow> hd ps \<noteq> [] \<Longrightarrow> join_with sep ps \<noteq> [] \<and> hd (join_with sep ps) = hd (hd ps)"
  by (induction sep ps rule: join_with.induct) auto


lemma split_on_no_sep: "c \<notin> set s \<Longrightarrow> split_on c s = [s]"
  by (induction s) auto

lemma arcname_flat: "CHR ''/'' \<notin> set f \<Longrightarrow> f \<noteq> [] \<Longrightarrow> f \<noteq> ''.'' \<Longrightarrow> f \<noteq> ''..'' \<Longrightarrow> arcname f = f"
  by (simp add: arcname_def split_on_no_sep)


lemma split_on_pieces: "p \<in> set (split_on c s) \<Longrightarrow> c \<notin> set p"
  by (induction s arbitrary: p) (auto split: if_splits list.splits)

lemma join_with_last: "ps \<noteq> [] \<Longrightarrow> last ps \<noteq> [] \<Longrightarrow> join_with sep ps \<noteq> [] \<and> last (join_with sep ps) = last (last ps)"
proof (induction sep ps rule: join_with.induct)
  case (1 sep) then show ?case by simp
next
  case (2 sep p) then show ?case by simp
next
  case (3 sep p q ps)
  then have "join_with sep (q # ps) \<noteq> [] \<and> last (join_with sep (q # ps)) = last (last (q # ps))" by simp
  then show ?case by simp
qed


lemma no_sep_ends: "p \<noteq> [] \<Longrightarrow> c \<notin> set p \<Longrightarrow> hd p \<noteq> c \<and> last p \<noteq> c"
  by (cases p) auto

lemma arcname_ends:
  assumes "arcname f \<noteq> []"
  shows "hd (arcname f) \<noteq> CHR ''/''" and "last (arcname f) \<noteq> CHR ''/''"
proof -
  define ps where "ps = filter (\<lambda>x. x \<noteq> [] \<and> x \<noteq> ''.'' \<and> x \<noteq> ''..'') (split_on CHR ''/'' f)"
  have arc: "arcname f = join_with ''/'' ps" by (simp add: arcname_def ps_def)
  from assms have ne: "ps \<noteq> []" by (auto simp: arc)
  have all: "\<And>p. p \<in> set ps \<Longrightarrow> p \<noteq> [] \<and> CHR ''/'' \<notin> set p"
  proof -
    fix p assume "p \<in> set ps"
    then have "p \<noteq> []" and "p \<in> set (split_on CHR ''/'' f)" by (simp_all add: ps_def)
    then show "p \<noteq> [] \<and> CHR ''/'' \<notin> set p" using split_on_pieces [of p "CHR ''/''" f] by simp
  qed
  have h: "hd ps \<noteq> [] \<and> CHR ''/'' \<notin> set (hd ps)" using all [OF hd_in_set [OF ne]] .
  have l: "last ps \<noteq> [] \<and> CHR ''/'' \<notin> set (last ps)" using all [OF last_in_set [OF ne]] .
  from h have "hd (hd ps) \<noteq> CHR ''/''" using no_sep_ends [of _ "CHR ''/''"] by simp
  with join_with_hd [OF ne, of "''/''"] h show "hd (arcname f) \<noteq> CHR ''/''"
    by (simp add: arc)
  from l have "last (last ps) \<noteq> CHR ''/''" using no_sep_ends [of _ "CHR ''/''"] by simp
  with join_with_last [OF ne, of "''/''"] l show "last (arcname f) \<noteq> CHR ''/''"
    by (simp add: arc)
qed

lemma makedirs_fresh:
  "\<not> path_exists s p \<Longrightarrow>
   makedirs b p s = (None, s\<lparr>trace := trace s @ [MakeDirs p], dirs := dirs s \<union> insert p (set (parents p))\<rparr>)"
  by (simp add: makedirs_def path_exists_def emit_def Let_def)

lemma extract_member_clean:
  assumes "arcname name = name" and "name \<noteq> []"
  shows "\<exists>s'. extract_member name data td s = (None, s') \<and>
           files s' = (join2 td name, Blob data) # filter (\<lambda>e. fst e \<noteq> join2 td name) (files s) \<and>
           dirs s \<subseteq> dirs s' \<and> history s' = history s \<and> glob s' = glob s \<and> next_session s' = next_session s"
proof -
  from assms arcname_ends(2) [of name] have nd: "last name \<noteq> CHR ''/''" by simp
  show ?thesis
  proof (cases "dirname (join2 td name) \<noteq> [] \<and> \<not> path_exists s (dirname (join2 td name))")
    case True
    then show ?thesis using assms nd
      by (auto simp add: extract_member_def Let_def makedirs_fresh write_file_def emit_def)
  next
    case False
    then show ?thesis using assms nd
      by (auto simp add: extract_member_def Let_def write_file_def emit_def)
  qed
qed

lemma getinfo_member: "getinfo zf f = Some data \<Longrightarrow> (f, data) \<in> set zf"
  by (auto simp: getinfo_def dest: map_of_SomeD)

lemma join_two: "join t [k, f] = join2 (join2 t k) f" and join_one: "join t [k] = join2 t k"
  by (simp_all add: join_def)


lemma join2_rel: "b \<noteq> [] \<Longrightarrow> hd b \<noteq> CHR ''/'' \<Longrightarrow> a \<noteq> [] \<Longrightarrow> last a \<noteq> CHR ''/'' \<Longrightarrow> join2 a b = a @ ''/'' @ b"
  by (simp add: join2_def)





lemma dec_lt10: "n < 10 \<Longrightarrow> dec n = [digit n]"
  by (subst dec.simps) simp
lemma dec_ge10: "10 \<le> n \<Longrightarrow> dec n = dec (n div 10) @ [digit (n mod 10)]"
  by (subst dec.simps) simp
lemma digit_no_slash: "d < 10 \<Longrightarrow> digit d \<noteq> CHR ''/''"
proof -
  assume "d < 10"
  then have "digit d \<in> set ''0123456789''" unfolding digit_def by (intro nth_mem) simp
  then show ?thesis by auto
qed

lemma dec_no_slash: "CHR ''/'' \<notin> set (dec n) \<and> dec n \<noteq> []"
proof (induction n rule: dec.induct)
  case (1 n)
  show ?case
  proof (cases "n < 10")
    case True then show ?thesis using digit_no_slash [of n] by (simp add: dec_lt10)
  next
    case False
    with 1 have "CHR ''/'' \<notin> set (dec (n div 10)) \<and> dec (n div 10) \<noteq> []" by simp
    moreover have "digit (n mod 10) \<noteq> CHR ''/''" by (rule digit_no_slash) simp
    ultimately show ?thesis using False by (simp add: dec_ge10)
  qed
qed

lemma fmt04_length: "4 \<le> length (fmt04 i)"
  by (simp add: fmt04_def)

lemma fmt04_no_slash: "CHR ''/'' \<notin> set (fmt04 i)"
  using dec_no_slash [of i] by (simp add: fmt04_def)

lemma fmt04_nonempty: "fmt04 i \<noteq> []"
  using fmt04_length [of i] by auto


section \<open>Sharded extraction of cover archives\<close>


lemma stem_9780141439518: "fst (splitext ''9780141439518.jpg'') = ''9780141439518''"
  by (simp add: splitext_def rfind_def Let_def)









section \<open>Lifting a property of the steps to a run\<close>

lemma seq_lift:
  assumes refl: "\<And>s. R s s" and trans: "\<And>a b c. R a b \<Longrightarrow> R b c \<Longrightarrow> R a c"
      and step: "\<And>f s. f \<in> set fs \<Longrightarrow> I s \<Longrightarrow> I (snd (f s)) \<and> R s (snd (f s))"
  shows "I s \<Longrightarrow> I (snd (seq fs s)) \<and> R s (snd (seq fs s))"
  using step
proof (induction fs arbitrary: s)
  case Nil
  then show ?case by (simp add: refl)
next
  case (Cons f fs)
  from Cons.prems have 1: "I (snd (f s)) \<and> R s (snd (f s))" by simp
  show ?case
  proof (cases "f s")
    case (Pair r s1)
    show ?thesis
    proof (cases r)
      case None
      from 1 Pair have i1: "I s1" and r1: "R s s1" by simp_all
      from Cons.IH [OF i1] Cons.prems(2) have 2: "I (snd (seq fs s1)) \<and> R s1 (snd (seq fs s1))" by simp
      from trans [OF r1 conjunct2 [OF 2]] 2 Pair None show ?thesis by simp
    next
      case (Some e)
      with 1 Pair show ?thesis by simp
    qed
  qed
qed

lemma for_each_lift:
  assumes refl: "\<And>s. R s s" and trans: "\<And>a b c. R a b \<Longrightarrow> R b c \<Longrightarrow> R a c"
      and step: "\<And>x s. x \<in> set xs \<Longrightarrow> I s \<Longrightarrow> I (snd (f x s)) \<and> R s (snd (f x s))"
  shows "I s \<Longrightarrow> I (snd (for_each f xs s)) \<and> R s (snd (for_each f xs s))"
  unfolding for_each_def
  by (rule seq_lift [where R = R and I = I, OF refl trans]) (auto simp: step)

lemma run_chunks_lift:
  assumes refl: "\<And>s. R s s" and trans: "\<And>a b c. R a b \<Longrightarrow> R b c \<Longrightarrow> R a c"
      and step: "\<And>x s. x \<in> set (concat cs) \<Longrightarrow> I s \<Longrightarrow> I (snd (f x s)) \<and> R s (snd (f x s))"
  shows "I s \<Longrightarrow> I (snd (run_chunks f cs s)) \<and> R s (snd (run_chunks f cs s))"
  using step
proof (induction cs arbitrary: s)
  case Nil
  then show ?case by (simp add: refl)
next
  case (Cons c cs)
  have 1: "I (snd (for_each f c s)) \<and> R s (snd (for_each f c s))"
    by (rule for_each_lift [where R = R and I = I, OF refl trans]) (auto simp: Cons.prems)
  obtain r s1 where p: "for_each f c s = (r, s1)" by (cases "for_each f c s")
  with 1 have i1: "I s1" and r1: "R s s1" by simp_all
  from Cons.IH [OF i1] Cons.prems(2) have 2: "I (snd (run_chunks f cs s1)) \<and> R s1 (snd (run_chunks f cs s1))" by simp
  obtain r' s2 where q: "run_chunks f cs s1 = (r', s2)" by (cases "run_chunks f cs s1")
  with 2 have 3: "I s2" "R s1 s2" by simp_all
  from trans [OF r1 3(2)] 3(1) have "I s2 \<and> R s s2" by simp
  with p q show ?case by simp
qed

lemma set_chunked: "set (concat (chunked n xs)) \<subseteq> set xs"
proof (induction n xs rule: chunked.induct)
  case (1 n xs)
  show ?case
  proof (cases "n = 0 \<or> xs = []")
    case True then show ?thesis by (subst chunked.simps) simp
  next
    case False
    with 1 have "set (concat (chunked n (drop n xs))) \<subseteq> set (drop n xs)" by simp
    then have "set (concat (chunked n (drop n xs))) \<subseteq> set xs"
      using set_drop_subset [of n xs] by (rule subset_trans)
    moreover have "set (take n xs) \<subseteq> set xs" by (rule set_take_subset)
    ultimately show ?thesis using False by (subst chunked.simps) simp
  qed
qed

lemma starmap_lift:
  assumes refl: "\<And>s. R s s" and trans: "\<And>a b c. R a b \<Longrightarrow> R b c \<Longrightarrow> R a c"
      and step: "\<And>x s. x \<in> set xs \<Longrightarrow> I s \<Longrightarrow> I (snd (f x s)) \<and> R s (snd (f x s))"
      and init: "I s"
  shows "I (snd (starmap procs f xs s)) \<and> R s (snd (starmap procs f xs s))"
  unfolding starmap_def
proof (rule run_chunks_lift [where R = R and I = I])
  show "R s s" for s by (rule refl)
  show "R a c" if "R a b" "R b c" for a b c using that by (rule trans)
  show "I (snd (f x s)) \<and> R s (snd (f x s))"
    if "x \<in> set (concat (chunked (chunksize (length xs) procs) xs))" and i: "I s" for x s
  proof -
    from that(1) have "x \<in> set xs"
      using set_chunked [of "chunksize (length xs) procs" xs] by (rule_tac subsetD)
    then show ?thesis using i by (rule step)
  qed
  show "I s" by (rule init)
qed

section \<open>Frames of the file system and extraction steps\<close>

lemma frame_refl: "frame P s s"
  by (simp add: frame_def)

lemma frame_trans: "frame P a b \<Longrightarrow> frame P b c \<Longrightarrow> frame P a c"
proof -
  assume ab: "frame P a b" and bc: "frame P b c"
  from ab obtain e1 where e1: "trace b = trace a @ e1" "list_all P e1" by (auto simp: frame_def)
  from bc obtain e2 where e2: "trace c = trace b @ e2" "list_all P e2" by (auto simp: frame_def)
  from e1 e2 have "trace c = trace a @ (e1 @ e2) \<and> list_all P (e1 @ e2)" by simp
  then have "\<exists>evs. trace c = trace a @ evs \<and> list_all P evs" by (rule exI)
  moreover from ab bc have "history c = history a \<and> pool (glob c) = pool (glob a) \<and>
      dirs a \<subseteq> dirs c \<and> next_session a \<le> next_session c"
    by (auto simp: frame_def)
  ultimately show ?thesis by (simp add: frame_def)
qed

lemma frame_mono: "(\<And>e. P e \<Longrightarrow> Q e) \<Longrightarrow> frame P s s' \<Longrightarrow> frame Q s s'"
  by (auto simp: frame_def list_all_iff)

lemma frame_emit: "P e \<Longrightarrow> frame P s (emit e s)"
  by (simp add: frame_def emit_def)

lemma frame_write_file: "P (WriteFile p) \<Longrightarrow> frame P s (write_file p c s)"
  by (simp add: frame_def write_file_def emit_def)

lemma frame_makedirs: "P (MakeDirs p) \<Longrightarrow> frame P s (snd (makedirs b p s))"
  by (auto simp: frame_def makedirs_def emit_def Let_def)

lemma frame_new_events: "frame P s s' \<Longrightarrow> trace s' = trace s @ new_events s s' \<and> list_all P (new_events s s')"
  by (auto simp: frame_def new_events_def)

lemma frame_extract_member:
  assumes "\<And>e. is_fs_event e \<Longrightarrow> P e"
  shows "frame P s (snd (extract_member name data td s))"
proof -
  have mk: "P (MakeDirs p)" and wr: "P (WriteFile p)" for p using assms by simp_all
  let ?tp = "join2 td (arcname name)"
  let ?f1 = "\<lambda>s. if dirname ?tp \<noteq> [] \<and> \<not> path_exists s (dirname ?tp)
                 then makedirs False (dirname ?tp) s else (None, s)"
  let ?f2 = "\<lambda>s. if name \<noteq> [] \<and> last name = CHR ''/''
                 then (if ?tp \<in> dirs s then (None, s)
                       else (None, (emit (MakeDirs ?tp) s)\<lparr>dirs := insert ?tp (dirs s)\<rparr>))
                 else (None, write_file ?tp (Blob data) s)"
  have 1: "frame P s (snd (?f1 s))" for s by (simp add: frame_makedirs mk frame_refl)
  have 3: "frame P s ((emit (MakeDirs ?tp) s)\<lparr>dirs := insert ?tp (dirs s)\<rparr>)" for s
    using mk by (auto simp: frame_def emit_def)
  have 2: "frame P s (snd (?f2 s))" for s
    using wr 3 [of s] by (simp add: frame_write_file frame_refl)
  have "True \<and> frame P s (snd (seq [?f1, ?f2] s))"
  proof (rule seq_lift [where R = "frame P" and I = "\<lambda>_. True"])
    show "frame P s s" for s by (rule frame_refl)
    show "frame P a c" if "frame P a b" "frame P b c" for a b c using that by (rule frame_trans)
    show "True \<and> frame P s (snd (f s))" if "f \<in> set [?f1, ?f2]" for f s
      using that 1 [of s] 2 [of s] by auto
    show True ..
  qed
  then show ?thesis by (simp add: extract_member_def Let_def frame_refl)
qed

lemma frame_zip_extract:
  assumes "\<And>e. is_fs_event e \<Longrightarrow> P e"
  shows "frame P s (snd (zip_extract zf name td s))"
  using frame_extract_member [OF assms] by (simp add: zip_extract_def frame_refl split: option.splits)

lemma frame_for_each:
  assumes "\<And>x s. x \<in> set xs \<Longrightarrow> frame P s (snd (f x s))"
  shows "frame P s (snd (for_each f xs s))"
proof -
  have "True \<and> frame P s (snd (for_each f xs s))"
  proof (rule for_each_lift [where R = "frame P" and I = "\<lambda>_. True"])
    show "frame P s s" for s by (rule frame_refl)
    show "frame P a c" if "frame P a b" "frame P b c" for a b c using that by (rule frame_trans)
    show "True \<and> frame P s (snd (f x s))" if "x \<in> set xs" for x s using that assms by simp
    show True ..
  qed
  then show ?thesis by simp
qed

lemma frame_seq:
  assumes "\<And>f s. f \<in> set fs \<Longrightarrow> frame P s (snd (f s))"
  shows "frame P s (snd (seq fs s))"
proof -
  have "True \<and> frame P s (snd (seq fs s))"
  proof (rule seq_lift [where R = "frame P" and I = "\<lambda>_. True"])
    show "frame P s s" for s by (rule frame_refl)
    show "frame P a c" if "frame P a b" "frame P b c" for a b c using that by (rule frame_trans)
    show "True \<and> frame P s (snd (f s))" if "f \<in> set fs" for f s using that assms by simp
    show True ..
  qed
  then show ?thesis by simp
qed

lemma frame_starmap:
  assumes "\<And>x s. x \<in> set xs \<Longrightarrow> frame P s (snd (f x s))"
  shows "frame P s (snd (starmap procs f xs s))"
proof -
  have "True \<and> frame P s (snd (starmap procs f xs s))"
  proof (rule starmap_lift [where R = "frame P" and I = "\<lambda>_. True"])
    show "frame P s s" for s by (rule frame_refl)
    show "frame P a c" if "frame P a b" "frame P b c" for a b c using that by (rule frame_trans)
    show "True \<and> frame P s (snd (f x s))" if "x \<in> set xs" for x s using that assms by simp
    show True ..
  qed
  then show ?thesis by simp
qed

lemma frame_zip_extractall:
  assumes "\<And>e. is_fs_event e \<Longrightarrow> P e"
  shows "frame P s (snd (zip_extractall zf td s))"
  unfolding zip_extractall_def
  by (rule frame_for_each) (auto simp: frame_extract_member [OF assms])

lemma frame_extract_cover_entry:
  assumes "\<And>e. is_fs_event e \<Longrightarrow> P e"
  shows "frame P s (snd (extract_cover_entry zf td f s))"
  using frame_zip_extract [OF assms] by (simp add: extract_cover_entry_def Let_def frame_refl)

lemma frame_extract_cover_zip:
  assumes "\<And>e. is_extract_event e \<Longrightarrow> P e"
  shows "frame P s (snd (extract_cover_zip a s))"
proof -
  obtain zfile td where a: "a = (zfile, td)" by (cases a)
  have fs: "P e" if "is_fs_event e" for e using that assms by (cases e) simp_all
  have 1: "frame P s (emit (ExtractTask zfile td) s)" by (rule frame_emit) (simp add: assms)
  have 2: "frame P s1 (snd (for_each (extract_cover_entry zf td) ns s1))" for zf ns s1
    by (rule frame_for_each) (rule frame_extract_cover_entry [OF fs])
  show ?thesis using 1 frame_trans [OF 1 2]
    by (simp add: a extract_cover_zip_def Let_def split: sum.splits)
qed

lemma frame_extract_zip:
  assumes "\<And>e. is_extract_event e \<Longrightarrow> P e"
  shows "frame P s (snd (extract_zip a s))"
proof -
  obtain zfile td where a: "a = (zfile, td)" by (cases a)
  have fs: "P e" if "is_fs_event e" for e using that assms by (cases e) simp_all
  have 1: "frame P s (emit (ExtractTask zfile td) s)" by (rule frame_emit) (simp add: assms)
  have 2: "frame P s1 (snd (zip_extractall zf td s1))" for zf s1
    by (rule frame_zip_extractall [OF fs])
  show ?thesis using 1 frame_trans [OF 1 2]
    by (simp add: a extract_zip_def Let_def split: sum.splits)
qed

section \<open>Frames of the download phase\<close>

lemma frame_pool_lift:
  assumes "\<And>s. pool (glob s) = g \<Longrightarrow> frame P s (snd (f s))" and "pool (glob s) = g"
  shows "pool (glob (snd (f s))) = g \<and> frame P s (snd (f s))"
  using assms by (auto simp: frame_def)

lemma frame_with_session:
  assumes body: "\<And>n s. frame P s (snd (body n s))"
      and op: "\<And>n. P (SessionOpen n)" and cl: "\<And>n. P (SessionClose n)"
  shows "frame P s (snd (with_session env body s))"
proof -
  let ?n = "next_session s"
  let ?s1 = "s\<lparr>next_session := Suc ?n\<rparr>"
  have 1: "frame P s ?s1" by (simp add: frame_def)
  show ?thesis
  proof (cases "ftp_connect env ?n")
    case (Some e)
    with 1 show ?thesis by (simp add: with_session_def Let_def)
  next
    case None
    have 2: "frame P ?s1 (emit (SessionOpen ?n) ?s1)" by (rule frame_emit) (rule op)
    obtain r s2 where b: "body ?n (emit (SessionOpen ?n) ?s1) = (r, s2)"
      by (cases "body ?n (emit (SessionOpen ?n) ?s1)")
    with body [of "emit (SessionOpen ?n) ?s1" ?n] have 3: "frame P (emit (SessionOpen ?n) ?s1) s2" by simp
    have 4: "frame P s2 (emit (SessionClose ?n) s2)" by (rule frame_emit) (rule cl)
    from frame_trans [OF frame_trans [OF frame_trans [OF 1 2] 3] 4] None b
    show ?thesis by (simp add: with_session_def Let_def)
  qed
qed

lemma frame_download_file:
  assumes "\<And>e. is_download_event (pool (glob s)) e \<Longrightarrow> P e"
  shows "frame P s (snd (download_file env a s))"
proof -
  obtain remote_file download_dir where a: "a = (remote_file, download_dir)" by (cases a)
  let ?s0 = "emit (DownloadTask remote_file (pool (glob s))) s"
  let ?lf = "get_local_path env remote_file download_dir"
  let ?body = "\<lambda>ftp s. let s1 = emit (Retrieve ftp remote_file ?lf) s
          in case ftp_download_file env ftp remote_file of
               Inr c \<Rightarrow> (None, write_file ?lf c s1)
             | Inl e \<Rightarrow>
                 if e = KeyboardInterrupt
                 then (case pool (glob s1) of
                         None \<Rightarrow> (Some AttributeError, s1)
                       | Some p \<Rightarrow> (None, emit PoolTerminate s1))
                 else (Some e, s1)"
  have 0: "frame P s ?s0" by (rule frame_emit) (simp add: assms)
  have body: "frame P s1 (snd (?body n s1))" for n s1
  proof -
    have r: "frame P s1 (emit (Retrieve n remote_file ?lf) s1)" by (rule frame_emit) (simp add: assms)
    have w: "frame P s2 (write_file ?lf c s2)" for c s2 by (rule frame_write_file) (simp add: assms)
    have t: "frame P s2 (emit PoolTerminate s2)" for s2 by (rule frame_emit) (simp add: assms)
    show ?thesis using r frame_trans [OF r w] frame_trans [OF r t]
      by (simp add: Let_def split: sum.splits option.splits)
  qed
  have "frame P ?s0 (snd (with_session env ?body ?s0))"
    by (rule frame_with_session) (simp_all add: body assms)
  from frame_trans [OF 0 this] show ?thesis by (simp add: a download_file_def Let_def)
qed

lemma frame_download_starmap:
  assumes P: "\<And>e. is_download_event g e \<Longrightarrow> P e" and g: "pool (glob s) = g"
  shows "pool (glob (snd (starmap procs (download_file env) xs s))) = g \<and>
         frame P s (snd (starmap procs (download_file env) xs s))"
proof (rule starmap_lift [where R = "frame P" and I = "\<lambda>s. pool (glob s) = g"])
  show "frame P s s" for s by (rule frame_refl)
  show "frame P a c" if "frame P a b" "frame P b c" for a b c using that by (rule frame_trans)
  show "pool (glob (snd (download_file env x s))) = g \<and> frame P s (snd (download_file env x s))"
    if "x \<in> set xs" and i: "pool (glob s) = g" for x s
  proof -
    have "frame P s (snd (download_file env x s))" by (rule frame_download_file) (simp add: i P)
    with i show ?thesis by (simp add: frame_def)
  qed
  show "pool (glob s) = g" by (rule g)
qed

lemma frame_download_batches:
  assumes P: "\<And>e. is_download_event g e \<Longrightarrow> P e" and g: "pool (glob s) = g"
  shows "pool (glob (snd (download_batches env bs s))) = g \<and>
         frame P s (snd (download_batches env bs s))"
  unfolding download_batches_def
proof (rule seq_lift [where R = "frame P" and I = "\<lambda>s. pool (glob s) = g"])
  show "frame P s s" for s by (rule frame_refl)
  show "frame P a c" if "frame P a b" "frame P b c" for a b c using that by (rule frame_trans)
  show "pool (glob (snd (f s))) = g \<and> frame P s (snd (f s))"
    if "f \<in> set (map (\<lambda>batch. starmap (processes env) (download_file env) batch) bs)"
      and i: "pool (glob s) = g" for f s
  proof -
    from that(1) obtain b where "f = starmap (processes env) (download_file env) b" by auto
    with frame_download_starmap [OF P i] show ?thesis by simp
  qed
  show "pool (glob s) = g" by (rule g)
qed

lemma frame_download_data_files:
  assumes P: "\<And>e. is_download_event (pool (glob s)) e \<Longrightarrow> P e"
  shows "frame P s (snd (download_data_files env download_dir s))"
proof -
  let ?n = "next_session s"
  let ?s1 = "s\<lparr>next_session := Suc ?n\<rparr>"
  let ?s2 = "emit (SessionOpen ?n) ?s1"
  let ?s3 = "emit (SessionClose ?n) ?s2"
  have 1: "frame P s ?s1" by (simp add: frame_def)
  have 2: "frame P ?s1 ?s2" by (rule frame_emit) (simp add: P)
  have 3: "frame P ?s2 ?s3" by (rule frame_emit) (simp add: P)
  have 13: "frame P s ?s3" by (rule frame_trans [OF frame_trans [OF 1 2] 3])
  have g3: "pool (glob ?s3) = pool (glob s)" by (simp add: emit_def)
  have 4: "frame P ?s3 (snd (download_batches env bs ?s3))" for bs
    using frame_download_batches [OF P g3] by simp
  show ?thesis
    using 1 13 frame_trans [OF 13 4]
    by (simp add: download_data_files_def Let_def split: option.splits sum.splits prod.splits)
qed

section \<open>The orchestration\<close>

lemma frame_unzip_onix_threaded:
  assumes "\<And>e. is_extract_event e \<Longrightarrow> P e"
  shows "frame P s (snd (unzip_onix_threaded env data_zips download_dir working_dir s))"
  unfolding unzip_onix_threaded_def
  by (rule frame_starmap) (rule frame_extract_zip [OF assms])

lemma frame_precreate:
  assumes "\<And>p. P (MakeDirs p)"
  shows "frame P s (snd (for_each (makedirs True) ds s))"
  by (rule frame_for_each) (simp add: frame_makedirs assms)

lemma frame_unzip_covers_threaded:
  assumes "\<And>e. is_extract_event e \<Longrightarrow> P e"
  shows "frame P s (snd (unzip_covers_threaded env cover_zips working_dir s))"
proof (cases "cover_size (glob s)")
  case None
  then show ?thesis by (simp add: unzip_covers_threaded_def frame_refl)
next
  case (Some cs)
  have "frame P s (snd (seq [for_each (makedirs True) (shard_dirs working_dir cs),
               starmap (processes env) extract_cover_zip
                 (map (\<lambda>z. (z, join working_dir [''Imageswk'', cs])) cover_zips)] s))"
  proof (rule frame_seq)
    fix f s
    assume "f \<in> set [for_each (makedirs True) (shard_dirs working_dir cs),
               starmap (processes env) extract_cover_zip
                 (map (\<lambda>z. (z, join working_dir [''Imageswk'', cs])) cover_zips)]"
    then consider "f = for_each (makedirs True) (shard_dirs working_dir cs)"
      | "f = starmap (processes env) extract_cover_zip
                 (map (\<lambda>z. (z, join working_dir [''Imageswk'', cs])) cover_zips)" by auto
    then show "frame P s (snd (f s))"
    proof cases
      case 1
      then show ?thesis using frame_precreate [of P] assms by simp
    next
      case 2
      then show ?thesis using frame_starmap [of _ P extract_cover_zip] frame_extract_cover_zip [OF assms]
        by simp
    qed
  qed
  with Some show ?thesis by (simp add: unzip_covers_threaded_def)
qed

lemma seq_snoc:
  "seq (fs @ [g]) s = (case seq fs s of (None, s') \<Rightarrow> g s' | (Some e, s') \<Rightarrow> (Some e, s'))"
  by (induction fs arbitrary: s) (auto split: prod.splits option.splits)

lemma stage_download: "is_download_event g e \<Longrightarrow> is_stage_event g e"
  by (cases e) simp_all

lemma stage_extract: "is_extract_event e \<Longrightarrow> is_stage_event g e"
  by (cases e) simp_all

lemma frame_pipeline:
  assumes g: "pool (glob s) = g"
  shows "pool (glob (snd (seq (pipeline env dd wd) s))) = g \<and>
         frame (is_stage_event g) s (snd (seq (pipeline env dd wd) s))"
proof (rule seq_lift [where R = "frame (is_stage_event g)" and I = "\<lambda>s. pool (glob s) = g"])
  show "frame (is_stage_event g) s s" for s by (rule frame_refl)
  show "frame (is_stage_event g) a c" if "frame (is_stage_event g) a b" "frame (is_stage_event g) b c"
    for a b c using that by (rule frame_trans)
  show "pool (glob (snd (f s))) = g \<and> frame (is_stage_event g) s (snd (f s))"
    if f: "f \<in> set (pipeline env dd wd)" and i: "pool (glob s) = g" for f s
  proof -
    have "frame (is_stage_event g) s (snd (f s))"
      using f frame_download_data_files [of s "is_stage_event g" env dd]
        frame_unzip_covers_threaded [of "is_stage_event g" s env _ wd]
        frame_unzip_onix_threaded [of "is_stage_event g" s env _ dd wd]
      by (auto simp: pipeline_def i stage_download stage_extract)
    with i show ?thesis by (simp add: frame_def)
  qed
  show "pool (glob s) = g" by (rule g)
qed

lemma set_connection_frame: "frame P s (snd (set_connection env s))"
  by (simp add: set_connection_def frame_def split: sum.splits)

lemma set_connection_pool: "pool (glob (snd (set_connection env s))) = pool (glob s)"
  by (simp add: set_connection_def split: sum.splits)


lemma main_run:
  assumes "config_get env ''host'' = Inr h" "config_get env ''user'' = Inr u"
    "config_get env ''passwd'' = Inr pw" "config_get env ''download_dir'' = Inr dd"
    "config_get env ''working_dir'' = Inr wd" "config_get env ''cover_size'' = Inr cs"
  shows "main env s0 =
           seq (pipeline env (expanduser env dd) (expanduser env wd) @ [save_run_history env])
             (s0\<lparr>glob := (glob s0)\<lparr>host := Some h, user := Some u, passwd := Some pw,
                                     cover_size := Some cs\<rparr>\<rparr>)"
  using assms by (simp add: main_def set_connection_def pipeline_def Let_def del: seq.simps)

lemma main_not_configured:
  assumes "\<not> configured env"
  shows "\<exists>e s1. main env s0 = (Some e, s1) \<and> trace s1 = trace s0 \<and> history s1 = history s0 \<and>
            pool (glob s1) = pool (glob s0) \<and> files s1 = files s0 \<and> dirs s1 = dirs s0 \<and>
            next_session s1 = next_session s0"
  using assms
  by (auto simp add: configured_def main_def set_connection_def Let_def simp del: seq.simps
        split: sum.splits)

lemma main_cases:
  "(\<exists>e s1. main env s0 = (Some e, s1) \<and> trace s1 = trace s0 \<and> history s1 = history s0 \<and>
            pool (glob s1) = pool (glob s0) \<and> files s1 = files s0 \<and> dirs s1 = dirs s0 \<and>
            next_session s1 = next_session s0) \<or>
   (\<exists>dd wd cs s1. config_get env ''download_dir'' = Inr dd \<and> config_get env ''working_dir'' = Inr wd \<and>
            config_get env ''cover_size'' = Inr cs \<and>
            trace s1 = trace s0 \<and> history s1 = history s0 \<and>
            pool (glob s1) = pool (glob s0) \<and> cover_size (glob s1) = Some cs \<and>
            files s1 = files s0 \<and> dirs s1 = dirs s0 \<and> next_session s1 = next_session s0 \<and>
            main env s0 =
              seq (pipeline env (expanduser env dd) (expanduser env wd) @ [save_run_history env]) s1)"
proof (cases "configured env")
  case False
  then show ?thesis using main_not_configured [of env s0] by simp
next
  case True
  then obtain h u pw dd wd cs where c: "config_get env ''host'' = Inr h" "config_get env ''user'' = Inr u"
    "config_get env ''passwd'' = Inr pw" "config_get env ''download_dir'' = Inr dd"
    "config_get env ''working_dir'' = Inr wd" "config_get env ''cover_size'' = Inr cs"
    by (auto simp: configured_def split: sum.splits)
  let ?s1 = "s0\<lparr>glob := (glob s0)\<lparr>host := Some h, user := Some u, passwd := Some pw,
                                     cover_size := Some cs\<rparr>\<rparr>"
  have "config_get env ''download_dir'' = Inr dd \<and> config_get env ''working_dir'' = Inr wd \<and>
            config_get env ''cover_size'' = Inr cs \<and>
            trace ?s1 = trace s0 \<and> history ?s1 = history s0 \<and>
            pool (glob ?s1) = pool (glob s0) \<and> cover_size (glob ?s1) = Some cs \<and>
            files ?s1 = files s0 \<and> dirs ?s1 = dirs s0 \<and> next_session ?s1 = next_session s0 \<and>
            main env s0 =
              seq (pipeline env (expanduser env dd) (expanduser env wd) @ [save_run_history env]) ?s1"
    using c main_run [OF c, of s0] by simp
  then show ?thesis by blast
qed

lemma arc_a: "arcname ''a.xml'' = ''a.xml''"
  by (rule arcname_flat) simp_all

lemma dn: "dirname ''/w/ONIX/a.xml'' = ''/w/ONIX''"
  by (simp add: dirname_def rfind_def Let_def rstrip_slash_def)

section \<open>Flat extraction overwrites\<close>

text \<open>
  C3 says that neither kind of extraction writes to a file that is already at an entry's
  destination. \<open>extract_cover_zip\<close> checks \<open>os.path.exists\<close> first; \<open>extract_zip\<close>
  calls \<open>extractall\<close>, which does not. Here \<open>/w/ONIX/a.xml\<close> exists with the bytes \<open>OLD\<close>;
  extracting \<open>/d/ONIX/o.zip\<close>, whose entry \<open>a.xml\<close> has the bytes \<open>NEW\<close>, into the
  directory \<open>unzip_onix_threaded\<close> computes for it writes the file and changes its bytes.
\<close>

theorem extract_zip_overwrites:
  "onix_extract_dir ''/d'' ''/w'' ''/d/ONIX/o.zip'' = ''/w/ONIX'' \<and>
   map_of (files onix_world) ''/w/ONIX/a.xml'' = Some (Blob ''OLD'') \<and>
   fst (extract_zip (''/d/ONIX/o.zip'', ''/w/ONIX'') onix_world) = None \<and>
   map_of (files (snd (extract_zip (''/d/ONIX/o.zip'', ''/w/ONIX'') onix_world))) ''/w/ONIX/a.xml'' =
     Some (Blob ''NEW'') \<and>
   new_events onix_world (snd (extract_zip (''/d/ONIX/o.zip'', ''/w/ONIX'') onix_world)) =
     [ExtractTask ''/d/ONIX/o.zip'' ''/w/ONIX'', WriteFile ''/w/ONIX/a.xml'']"
proof -
  have d: "onix_extract_dir ''/d'' ''/w'' ''/d/ONIX/o.zip'' = ''/w/ONIX''"
    by (simp add: onix_extract_dir_def dirname_def rfind_def Let_def rstrip_slash_def
          remove_all.simps lstrip_slash_def join_def join2_def)
  have j: "join2 ''/w/ONIX'' ''a.xml'' = ''/w/ONIX/a.xml''" by (simp add: join2_def)
  have e: "extract_zip (''/d/ONIX/o.zip'', ''/w/ONIX'') onix_world =
      (None, onix_world\<lparr>files := [(''/w/ONIX/a.xml'', Blob ''NEW''), (''/d/ONIX/o.zip'', ZipArchive [(''a.xml'', ''NEW'')])],
                       trace := [ExtractTask ''/d/ONIX/o.zip'' ''/w/ONIX'', WriteFile ''/w/ONIX/a.xml'']\<rparr>)"
    by (simp add: extract_zip_def onix_world_def emit_def open_zip_def zip_extractall_def for_each_def
          extract_member_def arc_a j dn path_exists_def write_file_def Let_def)
  show ?thesis by (simp add: d e new_events_def) (simp add: onix_world_def)
qed

section \<open>The global pool\<close>

lemma task_pools_append: "task_pools (a @ b) = task_pools a @ task_pools b"
  by (induction a rule: task_pools.induct) simp_all

lemma stage_task_pools: "list_all (is_stage_event g) evs \<Longrightarrow> list_all (\<lambda>p. p = g) (task_pools evs)"
  by (induction evs rule: task_pools.induct) simp_all

lemma main_events:
  "\<exists>pre. list_all (is_stage_event (pool (glob s))) pre \<and>
     (new_events s (snd (main env s)) = pre \<or> new_events s (snd (main env s)) = pre @ [Checkpoint])"
proof -
  from main_cases [of env s] consider
    (cfg) e s1 where "main env s = (Some e, s1)" "trace s1 = trace s"
  | (run) dd wd s1 where "trace s1 = trace s" "pool (glob s1) = pool (glob s)"
      "main env s = seq (pipeline env dd wd @ [save_run_history env]) s1"
    by blast
  then show ?thesis
  proof cases
    case cfg
    then show ?thesis by (intro exI [of _ "[]"]) (simp add: new_events_def)
  next
    case run
    obtain r s2 where p: "seq (pipeline env dd wd) s1 = (r, s2)" by (cases "seq (pipeline env dd wd) s1")
    from frame_pipeline [of s1 "pool (glob s1)" env dd wd] p
    have f: "frame (is_stage_event (pool (glob s1))) s1 s2" by simp
    then obtain pre where pre: "trace s2 = trace s1 @ pre" "list_all (is_stage_event (pool (glob s1))) pre"
      by (auto simp: frame_def)
    show ?thesis
    proof (cases r)
      case (Some e)
      with run p pre show ?thesis by (intro exI [of _ pre]) (simp add: seq_snoc new_events_def)
    next
      case None
      with run p pre show ?thesis
        by (intro exI [of _ pre])
          (auto simp add: seq_snoc save_run_history_def Let_def emit_def new_events_def)
    qed
  qed
qed

lemma download_file_interrupted:
  assumes "pool (glob s) = None" and "ftp_connect env (next_session s) = None"
      and "ftp_download_file env (next_session s) rf = Inl KeyboardInterrupt"
  shows "download_file env (rf, dd) s =
           (Some AttributeError,
            s\<lparr>next_session := Suc (next_session s),
              trace := trace s @ [DownloadTask rf None, SessionOpen (next_session s),
                Retrieve (next_session s) rf (get_local_path env rf dd), SessionClose (next_session s)]\<rparr>)"
  using assms by (simp add: download_file_def with_session_def emit_def Let_def)

text \<open>
  C9. The module starts with the global \<open>pool\<close> equal to \<open>None\<close>, and nothing assigns it:
  \<open>main\<close> declares it global but never assigns it, and the \<open>with\<close> statement of
  \<open>download_data_files\<close> binds a local name. So in a run of \<open>main\<close> that starts with \<open>pool\<close>
  equal to \<open>None\<close>, it is \<open>None\<close> at every entry of \<open>download_file\<close>. When it is \<open>None\<close>
  and the transfer raises KeyboardInterrupt, the handler's \<open>pool.terminate()\<close> raises
  AttributeError, and no pool is terminated.
\<close>

theorem pool_global_is_none:
  assumes "pool (glob s) = None"
  shows "list_all (\<lambda>p. p = None) (task_pools (new_events s (snd (main env s)))) \<and>
         (pool (glob s1) = None \<and> ftp_connect env (next_session s1) = None \<and>
          ftp_download_file env (next_session s1) rf = Inl KeyboardInterrupt \<longrightarrow>
            fst (download_file env (rf, dd) s1) = Some AttributeError \<and>
            PoolTerminate \<notin> set (new_events s1 (snd (download_file env (rf, dd) s1))))"
proof -
  from main_events [of s env] obtain pre where pre: "list_all (is_stage_event (pool (glob s))) pre"
    and ev: "new_events s (snd (main env s)) = pre \<or> new_events s (snd (main env s)) = pre @ [Checkpoint]"
    by blast
  from pre assms have "list_all (\<lambda>p. p = None) (task_pools pre)" using stage_task_pools [of None pre] by simp
  with ev have 1: "list_all (\<lambda>p. p = None) (task_pools (new_events s (snd (main env s))))"
    by (auto simp: task_pools_append)
  have 2: "pool (glob s1) = None \<and> ftp_connect env (next_session s1) = None \<and>
          ftp_download_file env (next_session s1) rf = Inl KeyboardInterrupt \<longrightarrow>
            fst (download_file env (rf, dd) s1) = Some AttributeError \<and>
            PoolTerminate \<notin> set (new_events s1 (snd (download_file env (rf, dd) s1)))"
    using download_file_interrupted [of s1 env rf dd] by (auto simp: new_events_def)
  from 1 2 show ?thesis by simp
qed

theorem pool_global_is_none_witness:
  "pool (glob empty_world) = None \<and>
   ftp_connect (ex_env\<lparr>ftp_download_file := (\<lambda>n p. Inl KeyboardInterrupt)\<rparr>) (next_session empty_world) = None \<and>
   ftp_download_file (ex_env\<lparr>ftp_download_file := (\<lambda>n p. Inl KeyboardInterrupt)\<rparr>)
     (next_session empty_world) ''/ONIX/o1.zip'' = Inl KeyboardInterrupt \<and>
   list_all (\<lambda>p. p = None) (task_pools (new_events empty_world
     (snd (main (ex_env\<lparr>ftp_download_file := (\<lambda>n p. Inl KeyboardInterrupt)\<rparr>) empty_world)))) \<and>
   fst (download_file (ex_env\<lparr>ftp_download_file := (\<lambda>n p. Inl KeyboardInterrupt)\<rparr>)
          (''/ONIX/o1.zip'', ''/d'') empty_world) = Some AttributeError"
proof -
  have p: "pool (glob empty_world) = None" by (simp add: empty_world_def module_globals_def)
  have c: "ftp_connect (ex_env\<lparr>ftp_download_file := (\<lambda>n p. Inl KeyboardInterrupt)\<rparr>) (next_session empty_world) = None"
    by (simp add: ex_env_def)
  have d: "ftp_download_file (ex_env\<lparr>ftp_download_file := (\<lambda>n p. Inl KeyboardInterrupt)\<rparr>)
     (next_session empty_world) ''/ONIX/o1.zip'' = Inl KeyboardInterrupt" by simp
  from pool_global_is_none [OF p, of "ex_env\<lparr>ftp_download_file := (\<lambda>n p. Inl KeyboardInterrupt)\<rparr>"
      empty_world "''/ONIX/o1.zip''" "''/d''"] p c d
  show ?thesis by simp
qed

section \<open>One session for each transfer\<close>

lemma bracket_append: "bracket c a \<Longrightarrow> bracket None b \<Longrightarrow> bracket c (a @ b)"
  by (induction c a rule: bracket.induct) simp_all

lemma opened_append: "opened (a @ b) = opened a @ opened b"
  by (induction a rule: opened.induct) simp_all

lemma bracket_skip: "list_all (\<lambda>e. \<not> is_session_event e) mid \<Longrightarrow> bracket c (mid @ es) = bracket c es"
  by (induction c mid rule: bracket.induct) simp_all

lemma opened_skip: "list_all (\<lambda>e. \<not> is_session_event e) mid \<Longrightarrow> opened (mid @ es) = opened es"
  by (induction mid rule: opened.induct) simp_all

lemma sess_refl: "sess s s"
  by (simp add: sess_def)

lemma sess_trans:
  assumes "sess a b" and "sess b c"
  shows "sess a c"
proof -
  from assms(1) obtain e1 where 1: "trace b = trace a @ e1" "bracket None e1" "sorted_wrt (<) (opened e1)"
    "list_all (\<lambda>n. next_session a \<le> n \<and> n < next_session b) (opened e1)" "next_session a \<le> next_session b"
    by (auto simp: sess_def)
  from assms(2) obtain e2 where 2: "trace c = trace b @ e2" "bracket None e2" "sorted_wrt (<) (opened e2)"
    "list_all (\<lambda>n. next_session b \<le> n \<and> n < next_session c) (opened e2)" "next_session b \<le> next_session c"
    by (auto simp: sess_def)
  have t: "trace c = trace a @ (e1 @ e2)" using 1(1) 2(1) by simp
  have b: "bracket None (e1 @ e2)" using 1(2) 2(2) by (rule bracket_append)
  have lt: "x < y" if "x \<in> set (opened e1)" "y \<in> set (opened e2)" for x y
  proof -
    from that(1) 1(4) have "x < next_session b" by (simp add: list_all_iff)
    moreover from that(2) 2(4) have "next_session b \<le> y" by (simp add: list_all_iff)
    ultimately show ?thesis by simp
  qed
  have s: "sorted_wrt (<) (opened (e1 @ e2))"
    using 1(3) 2(3) lt by (simp add: opened_append sorted_wrt_append)
  have r: "list_all (\<lambda>n. next_session a \<le> n \<and> n < next_session c) (opened (e1 @ e2))"
  proof -
    have "next_session a \<le> n \<and> n < next_session c" if "n \<in> set (opened e1) \<union> set (opened e2)" for n
    proof -
      from that consider "n \<in> set (opened e1)" | "n \<in> set (opened e2)" by auto
      then show ?thesis
      proof cases
        case 1
        with \<open>list_all (\<lambda>n. next_session a \<le> n \<and> n < next_session b) (opened e1)\<close>
        have "next_session a \<le> n \<and> n < next_session b" by (simp add: list_all_iff)
        with 2(5) show ?thesis by simp
      next
        case 2
        with \<open>list_all (\<lambda>n. next_session b \<le> n \<and> n < next_session c) (opened e2)\<close>
        have "next_session b \<le> n \<and> n < next_session c" by (simp add: list_all_iff)
        with 1(5) show ?thesis by simp
      qed
    qed
    then show ?thesis by (simp add: opened_append list_all_iff)
  qed
  from 1(5) 2(5) have "next_session a \<le> next_session c" by simp
  with t b s r show ?thesis unfolding sess_def by blast
qed

lemma download_file_trace:
  "\<exists>mid. list_all (\<lambda>e. e = WriteFile (get_local_path env rf dd) \<or> e = PoolTerminate) mid \<and>
     trace (snd (download_file env (rf, dd) s)) =
       trace s @ DownloadTask rf (pool (glob s)) #
         (if ftp_connect env (next_session s) = None
          then [SessionOpen (next_session s),
                Retrieve (next_session s) rf (get_local_path env rf dd)] @ mid @
               [SessionClose (next_session s)]
          else []) \<and>
     next_session (snd (download_file env (rf, dd) s)) = Suc (next_session s)"
proof (cases "ftp_connect env (next_session s)")
  case (Some e)
  then show ?thesis
    by (intro exI [of _ "[]"]) (simp add: download_file_def with_session_def emit_def Let_def)
next
  case None
  show ?thesis
  proof (cases "ftp_download_file env (next_session s) rf")
    case (Inr c)
    with None show ?thesis
      by (intro exI [of _ "[WriteFile (get_local_path env rf dd)]"])
        (simp add: download_file_def with_session_def emit_def write_file_def Let_def)
  next
    case (Inl e)
    show ?thesis
    proof (cases "e = KeyboardInterrupt \<and> pool (glob s) \<noteq> None")
      case True
      with None Inl show ?thesis
        by (intro exI [of _ "[PoolTerminate]"])
          (auto simp add: download_file_def with_session_def emit_def Let_def)
    next
      case False
      with None Inl show ?thesis
        by (intro exI [of _ "[]"])
          (auto simp add: download_file_def with_session_def emit_def Let_def)
    qed
  qed
qed

lemma not_session_mid:
  "list_all (\<lambda>e. e = WriteFile lf \<or> e = PoolTerminate) mid \<Longrightarrow>
   list_all (\<lambda>e. \<not> is_session_event e) mid"
proof (induction mid)
  case Nil
  show ?case by simp
next
  case (Cons e mid)
  from Cons.prems have "e = WriteFile lf \<or> e = PoolTerminate" by simp
  then have "\<not> is_session_event e" by (elim disjE) simp_all
  moreover from Cons have "list_all (\<lambda>e. \<not> is_session_event e) mid" by simp
  ultimately show ?case by simp
qed

lemma sess_intro:
  assumes "trace s' = trace s @ evs" and "bracket None evs" and "sorted_wrt (<) (opened evs)"
      and "list_all (\<lambda>n. next_session s \<le> n \<and> n < next_session s') (opened evs)"
      and "next_session s \<le> next_session s'"
  shows "sess s s'"
  unfolding sess_def using assms by (intro exI [of _ evs]) simp

lemma sess_download_file: "sess s (snd (download_file env a s))"
proof -
  obtain rf dd where a: "a = (rf, dd)" by (cases a)
  let ?n = "next_session s" and ?lf = "get_local_path env rf dd"
  let ?s' = "snd (download_file env (rf, dd) s)"
  from download_file_trace [of env rf dd s] obtain mid where
    mid: "list_all (\<lambda>e. e = WriteFile ?lf \<or> e = PoolTerminate) mid"
    and tr: "trace ?s' =
       trace s @ DownloadTask rf (pool (glob s)) #
         (if ftp_connect env ?n = None
          then [SessionOpen ?n, Retrieve ?n rf ?lf] @ mid @ [SessionClose ?n] else [])"
    and nx: "next_session ?s' = Suc ?n"
    by blast
  have ns: "list_all (\<lambda>e. \<not> is_session_event e) mid" using mid by (rule not_session_mid)
  have "sess s ?s'"
  proof (cases "ftp_connect env ?n")
    case (Some e)
    then have t: "trace ?s' = trace s @ [DownloadTask rf (pool (glob s))]" using tr by simp
    show ?thesis by (rule sess_intro [OF t]) (simp_all add: nx)
  next
    case None
    then have t: "trace ?s' = trace s @ ([DownloadTask rf (pool (glob s)), SessionOpen ?n,
        Retrieve ?n rf ?lf] @ mid @ [SessionClose ?n])" using tr by simp
    have b: "bracket None ([DownloadTask rf (pool (glob s)), SessionOpen ?n,
        Retrieve ?n rf ?lf] @ mid @ [SessionClose ?n])"
      using bracket_skip [OF ns, of "Some (?n, True)" "[SessionClose ?n]"] by simp
    have o: "opened ([DownloadTask rf (pool (glob s)), SessionOpen ?n,
        Retrieve ?n rf ?lf] @ mid @ [SessionClose ?n]) = [?n]"
      using opened_skip [OF ns, of "[SessionClose ?n]"] by simp
    show ?thesis
    proof (rule sess_intro [OF t b])
      show "sorted_wrt (<) (opened ([DownloadTask rf (pool (glob s)), SessionOpen ?n,
        Retrieve ?n rf ?lf] @ mid @ [SessionClose ?n]))" unfolding o by simp
      show "list_all (\<lambda>n. next_session s \<le> n \<and> n < next_session ?s')
         (opened ([DownloadTask rf (pool (glob s)), SessionOpen ?n,
        Retrieve ?n rf ?lf] @ mid @ [SessionClose ?n]))" unfolding o nx by simp
      show "next_session s \<le> next_session ?s'" unfolding nx by simp
    qed
  qed
  then show ?thesis by (simp add: a)
qed

lemma sess_starmap_download: "sess s (snd (starmap procs (download_file env) xs s))"
proof -
  have "True \<and> sess s (snd (starmap procs (download_file env) xs s))"
  proof (rule starmap_lift [where R = sess and I = "\<lambda>_. True"])
    show "sess s s" for s by (rule sess_refl)
    show "sess a c" if "sess a b" "sess b c" for a b c using that by (rule sess_trans)
    show "True \<and> sess s (snd (download_file env x s))" for x s by (simp add: sess_download_file)
    show True ..
  qed
  then show ?thesis by simp
qed

lemma sess_download_batches: "sess s (snd (download_batches env bs s))"
proof -
  have "True \<and> sess s (snd (download_batches env bs s))"
    unfolding download_batches_def
  proof (rule seq_lift [where R = sess and I = "\<lambda>_. True"])
    show "sess s s" for s by (rule sess_refl)
    show "sess a c" if "sess a b" "sess b c" for a b c using that by (rule sess_trans)
    show "True \<and> sess s (snd (f s))"
      if "f \<in> set (map (\<lambda>batch. starmap (processes env) (download_file env) batch) bs)" for f s
    proof -
      from that obtain b where "f = starmap (processes env) (download_file env) b" by auto
      then show ?thesis by (simp add: sess_starmap_download)
    qed
    show True ..
  qed
  then show ?thesis by simp
qed

lemma sess_listing_session:
  "sess s (emit (SessionClose (next_session s))
            (emit (SessionOpen (next_session s)) (s\<lparr>next_session := Suc (next_session s)\<rparr>)))"
  unfolding sess_def
  by (intro exI [of _ "[SessionOpen (next_session s), SessionClose (next_session s)]"])
    (simp add: emit_def)

lemma sess_download_data_files: "sess s (snd (download_data_files env dd s))"
proof -
  let ?n = "next_session s"
  let ?s3 = "emit (SessionClose ?n) (emit (SessionOpen ?n) (s\<lparr>next_session := Suc ?n\<rparr>))"
  have 0: "sess s (s\<lparr>next_session := Suc ?n\<rparr>)" by (simp add: sess_def)
  have 1: "sess s ?s3" by (rule sess_listing_session)
  have 2: "sess s (snd (download_batches env bs ?s3))" for bs
    by (rule sess_trans [OF 1 sess_download_batches])
  show ?thesis using 0 1 2
    by (simp add: download_data_files_def Let_def split: option.splits sum.splits prod.splits)
qed

lemma sess_new_events:
  "sess s s' \<Longrightarrow> bracket None (new_events s s') \<and> sorted_wrt (<) (opened (new_events s s'))"
  by (auto simp: sess_def new_events_def)

text \<open>
  C7. \<open>download_file\<close> opens its own session for its one transfer: whatever the transfer
  does (it succeeds, it raises, it is interrupted), the events of the call are the entry,
  then, if the session could be opened, the opening of a session with a new number, one
  transfer on it, and its close; the next session gets the next number. Over the whole
  download phase the session events pass \<open>bracket\<close>: a session is opened only when none
  is open, makes at most one transfer, and is closed; and the numbers of the sessions
  opened increase, so no session is used for a second item.
\<close>

theorem one_session_per_transfer:
  "(\<exists>mid. list_all (\<lambda>e. e = WriteFile (get_local_path env rf dd) \<or> e = PoolTerminate) mid \<and>
      new_events s (snd (download_file env (rf, dd) s)) =
        DownloadTask rf (pool (glob s)) #
          (if ftp_connect env (next_session s) = None
           then [SessionOpen (next_session s),
                 Retrieve (next_session s) rf (get_local_path env rf dd)] @ mid @
                [SessionClose (next_session s)]
           else []) \<and>
      next_session (snd (download_file env (rf, dd) s)) = Suc (next_session s)) \<and>
   bracket None (new_events s (snd (download_data_files env dd s))) \<and>
   sorted_wrt (<) (opened (new_events s (snd (download_data_files env dd s))))"
proof -
  from download_file_trace [of env rf dd s] obtain mid where
    "list_all (\<lambda>e. e = WriteFile (get_local_path env rf dd) \<or> e = PoolTerminate) mid \<and>
      new_events s (snd (download_file env (rf, dd) s)) =
        DownloadTask rf (pool (glob s)) #
          (if ftp_connect env (next_session s) = None
           then [SessionOpen (next_session s),
                 Retrieve (next_session s) rf (get_local_path env rf dd)] @ mid @
                [SessionClose (next_session s)]
           else []) \<and>
      next_session (snd (download_file env (rf, dd) s)) = Suc (next_session s)"
    by (auto simp: new_events_def)
  then have "\<exists>mid. list_all (\<lambda>e. e = WriteFile (get_local_path env rf dd) \<or> e = PoolTerminate) mid \<and>
      new_events s (snd (download_file env (rf, dd) s)) =
        DownloadTask rf (pool (glob s)) #
          (if ftp_connect env (next_session s) = None
           then [SessionOpen (next_session s),
                 Retrieve (next_session s) rf (get_local_path env rf dd)] @ mid @
                [SessionClose (next_session s)]
           else []) \<and>
      next_session (snd (download_file env (rf, dd) s)) = Suc (next_session s)"
    by (rule exI)
  with sess_new_events [OF sess_download_data_files, of s env dd] show ?thesis by simp
qed

section \<open>The four categories\<close>

lemma chunked_Nil: "chunked n [] = []"
  by (subst chunked.simps) simp

lemma chunked_step: "0 < n \<Longrightarrow> xs \<noteq> [] \<Longrightarrow> chunked n xs = take n xs # chunked n (drop n xs)"
  by (subst chunked.simps) simp

lemma starmap_Nil: "starmap procs f [] s = (None, s)"
  by (simp add: starmap_def chunked_Nil)

lemma makedirs_no_file:
  "map_of (files s) d = None \<Longrightarrow>
   \<exists>s'. makedirs True d s = (None, s') \<and> trace s' = trace s @ [MakeDirs d] \<and> files s' = files s \<and>
        history s' = history s \<and> glob s' = glob s \<and> next_session s' = next_session s \<and>
        d \<in> dirs s' \<and> dirs s \<subseteq> dirs s'"
  by (auto simp: makedirs_def emit_def Let_def)

lemma precreate_ok:
  "list_all (\<lambda>d. map_of (files s) d = None) ds \<Longrightarrow>
   \<exists>s'. for_each (makedirs True) ds s = (None, s') \<and> trace s' = trace s @ map MakeDirs ds \<and>
        files s' = files s \<and> history s' = history s \<and> glob s' = glob s \<and>
        next_session s' = next_session s \<and> set ds \<subseteq> dirs s' \<and> dirs s \<subseteq> dirs s'"
proof (induction ds arbitrary: s)
  case Nil
  then show ?case by simp
next
  case (Cons d ds)
  from Cons.prems have d: "map_of (files s) d = None" by simp
  from makedirs_no_file [OF d] obtain s1 where s1: "makedirs True d s = (None, s1)"
    "trace s1 = trace s @ [MakeDirs d]" "files s1 = files s" "history s1 = history s"
    "glob s1 = glob s" "next_session s1 = next_session s" "d \<in> dirs s1" "dirs s \<subseteq> dirs s1"
    by blast
  from Cons.prems s1(3) have "list_all (\<lambda>d. map_of (files s1) d = None) ds" by simp
  from Cons.IH [OF this] obtain s2 where s2: "for_each (makedirs True) ds s1 = (None, s2)"
    "trace s2 = trace s1 @ map MakeDirs ds" "files s2 = files s1" "history s2 = history s1"
    "glob s2 = glob s1" "next_session s2 = next_session s1" "set ds \<subseteq> dirs s2" "dirs s1 \<subseteq> dirs s2"
    by blast
  have "for_each (makedirs True) (d # ds) s = (None, s2) \<and> trace s2 = trace s @ map MakeDirs (d # ds) \<and>
        files s2 = files s \<and> history s2 = history s \<and> glob s2 = glob s \<and>
        next_session s2 = next_session s \<and> set (d # ds) \<subseteq> dirs s2 \<and> dirs s \<subseteq> dirs s2"
    using s1 s2 by (auto simp: for_each_Cons)
  then show ?case by (rule exI)
qed

lemma shard_dir_literal:
  assumes "wd \<noteq> []" "last wd \<noteq> CHR ''/''" "cs \<noteq> []" "hd cs \<noteq> CHR ''/''" "last cs \<noteq> CHR ''/''"
  shows "join wd [''Imageswk'', cs, k] = (if k \<noteq> [] \<and> hd k = CHR ''/'' then k else wd @ ''/Imageswk/'' @ cs @ ''/'' @ k)"
  using assms by (simp add: join_def join2_def)

lemma ex_shard_dirs:
  "shard_dirs ''/w'' ''j400w'' = map (\<lambda>i. ''/w/Imageswk/j400w/'' @ fmt04 i) [0..<10000]"
proof -
  have "join ''/w'' [''Imageswk'', ''j400w'', fmt04 i] = ''/w/Imageswk/j400w/'' @ fmt04 i" for i
    using no_sep_ends [of "fmt04 i" "CHR ''/''"] fmt04_nonempty [of i] fmt04_no_slash [of i]
    by (simp add: shard_dir_literal)
  then show ?thesis by (simp add: shard_dirs_def)
qed

lemma ex_config_get:
  "config_get ex_env ''host'' = Inr ''ftp.example.com''" "config_get ex_env ''user'' = Inr ''u''"
  "config_get ex_env ''passwd'' = Inr ''p''" "config_get ex_env ''download_dir'' = Inr ''/d''"
  "config_get ex_env ''working_dir'' = Inr ''/w''" "config_get ex_env ''cover_size'' = Inr ''j400w''"
  by (simp_all add: config_get_def ex_env_def ex_config_def)

lemma ex_main_unfold:
  "main ex_env empty_world = seq (pipeline ex_env ''/d'' ''/w'' @ [save_run_history ex_env]) ex_configured"
proof -
  have "expanduser ex_env p = p" for p by (simp add: ex_env_def)
  with main_run [OF ex_config_get, of empty_world] show ?thesis
    by (simp add: ex_configured_def empty_world_def module_globals_def del: seq.simps)
qed

lemma ex_starmap_single:
  "starmap (processes ex_env) f [x] s = (case f x s of (r, s') \<Rightarrow> (r, s'))"
proof -
  have c: "chunksize (Suc 0) (processes ex_env) = Suc 0"
    by (simp add: chunksize_def processes_def ex_env_def)
  have k: "chunked (Suc 0) [x] = [[x]]" by (simp add: chunked_step chunked_Nil)
  show ?thesis by (simp add: starmap_def c k for_each_Cons split: prod.splits option.splits)
qed

lemma ex_download_file:
  "download_file ex_env (''/Reference/r1.zip'', ''/d'')
     (ex_configured\<lparr>next_session := Suc 0, trace := [SessionOpen 0, SessionClose 0]\<rparr>) = (None, ex_downloaded)"
  by (simp add: download_file_def with_session_def emit_def write_file_def Let_def ex_env_def
        ex_downloaded_def ex_configured_def empty_world_def)

lemma ex_download:
  "download_data_files ex_env ''/d'' ex_configured = (None, ex_downloaded)"
proof -
  have l: "listings ex_env cs = Inr ([], [], [], [''/Reference/r1.zip''])" for cs
    by (simp add: listings_def ex_env_def)
  have c: "ftp_connect ex_env n = None" for n by (simp add: ex_env_def)
  have s: "emit (SessionClose 0) (emit (SessionOpen 0) (ex_configured\<lparr>next_session := Suc 0\<rparr>)) =
      ex_configured\<lparr>next_session := Suc 0, trace := [SessionOpen 0, SessionClose 0]\<rparr>"
    by (simp add: emit_def ex_configured_def empty_world_def)
  have n: "next_session ex_configured = 0" by (simp add: ex_configured_def empty_world_def)
  show ?thesis
    by (simp add: download_data_files_def Let_def l c n s download_batches_def starmap_Nil
          ex_starmap_single ex_download_file)
qed

lemma extracted_append: "extracted (a @ b) = extracted a @ extracted b"
  by (induction a rule: extracted.induct) simp_all

lemma downloaded_append: "downloaded (a @ b) = downloaded a @ downloaded b"
  by (induction a rule: downloaded.induct) simp_all

lemma extracted_MakeDirs: "extracted (map MakeDirs ds) = []"
  by (induction ds) simp_all

lemma downloaded_MakeDirs: "downloaded (map MakeDirs ds) = []"
  by (induction ds) simp_all

lemma ex_no_zips:
  "get_files_matching ex_env (files ex_downloaded) (join ''/d'' [''Imageswk'']) ''*.zip'' = []"
  "get_files_matching ex_env (files ex_downloaded) (join ''/d'' [''ONIX'']) ''*.zip'' = []"
  "get_files_matching ex_env (files ex_downloaded) (join ''/d'' [''ONIX_BKLST'']) ''*.zip'' = []"
  by (simp_all add: ex_env_def ex_downloaded_def join_def join2_def)

lemma ex_no_file_in_the_way:
  "list_all (\<lambda>d. map_of (files ex_downloaded) d = None) (shard_dirs ''/w'' ''j400w'')"
  by (simp add: ex_shard_dirs list_all_iff ex_downloaded_def)

lemma ex_unzip_covers:
  "\<exists>s'. unzip_covers_threaded ex_env [] ''/w'' ex_downloaded = (None, s') \<and>
        trace s' = trace ex_downloaded @ map MakeDirs (shard_dirs ''/w'' ''j400w'') \<and>
        files s' = files ex_downloaded \<and> history s' = history ex_downloaded"
proof -
  from precreate_ok [OF ex_no_file_in_the_way] obtain s' where
    s': "for_each (makedirs True) (shard_dirs ''/w'' ''j400w'') ex_downloaded = (None, s')"
    "trace s' = trace ex_downloaded @ map MakeDirs (shard_dirs ''/w'' ''j400w'')"
    "files s' = files ex_downloaded" "history s' = history ex_downloaded"
    by blast
  have c: "cover_size (glob ex_downloaded) = Some ''j400w''"
    by (simp add: ex_downloaded_def ex_configured_def)
  have "unzip_covers_threaded ex_env [] ''/w'' ex_downloaded = (None, s')"
    by (simp add: unzip_covers_threaded_def c s'(1) starmap_Nil)
  with s' show ?thesis by blast
qed

lemma ex_main:
  "\<exists>s'. main ex_env empty_world = (None, s') \<and>
        trace s' = trace ex_downloaded @ map MakeDirs (shard_dirs ''/w'' ''j400w'') @ [Checkpoint] \<and>
        files s' = files ex_downloaded \<and> history s' = Some 1000"
proof -
  from ex_unzip_covers obtain s3 where
    s3: "unzip_covers_threaded ex_env [] ''/w'' ex_downloaded = (None, s3)"
    "trace s3 = trace ex_downloaded @ map MakeDirs (shard_dirs ''/w'' ''j400w'')"
    "files s3 = files ex_downloaded" "history s3 = history ex_downloaded"
    by blast
  have z: "get_files_matching ex_env (files s3) (join ''/d'' [''ONIX'']) ''*.zip'' = []"
    "get_files_matching ex_env (files s3) (join ''/d'' [''ONIX_BKLST'']) ''*.zip'' = []"
    using ex_no_zips by (simp_all add: s3(3))
  have u: "unzip_onix_threaded ex_env [] dd wd s = (None, s)" for dd wd s
    by (simp add: unzip_onix_threaded_def starmap_Nil)
  have sv: "save_run_history ex_env s3 = (None, (emit Checkpoint s3)\<lparr>history := Some 1000\<rparr>)"
    by (simp add: save_run_history_def Let_def ex_env_def)
  have "main ex_env empty_world = (None, (emit Checkpoint s3)\<lparr>history := Some 1000\<rparr>)"
    by (simp add: ex_main_unfold pipeline_def ex_download ex_no_zips s3(1) z u sv)
  moreover have "trace ((emit Checkpoint s3)\<lparr>history := Some 1000\<rparr>) =
      trace ex_downloaded @ map MakeDirs (shard_dirs ''/w'' ''j400w'') @ [Checkpoint]"
    by (simp add: emit_def s3(2))
  moreover have "files ((emit Checkpoint s3)\<lparr>history := Some 1000\<rparr>) = files ex_downloaded"
    by (simp add: emit_def s3(3))
  ultimately show ?thesis by (intro exI [of _ "(emit Checkpoint s3)\<lparr>history := Some 1000\<rparr>"]) simp
qed

text \<open>
  C6 says that every category, the reference category too, is extracted before the
  checkpoint. Here the server lists one reference archive. The run succeeds and commits
  the checkpoint; the archive was downloaded to \<open>/d/Reference/r1.zip\<close> and is still an
  archive there; no extraction was entered.
\<close>

theorem reference_archive_not_extracted:
  "get_reference_files ex_env = Inr [''/Reference/r1.zip''] \<and>
   fst (main ex_env empty_world) = None \<and>
   map_of (files (snd (main ex_env empty_world))) ''/d/Reference/r1.zip'' =
     Some (ZipArchive [(''ref.txt'', ''R'')]) \<and>
   downloaded (trace (snd (main ex_env empty_world))) = [''/Reference/r1.zip''] \<and>
   extracted (trace (snd (main ex_env empty_world))) = [] \<and>
   last (trace (snd (main ex_env empty_world))) = Checkpoint \<and>
   history (snd (main ex_env empty_world)) = Some 1000"
proof -
  from ex_main obtain s' where s': "main ex_env empty_world = (None, s')"
    "trace s' = trace ex_downloaded @ map MakeDirs (shard_dirs ''/w'' ''j400w'') @ [Checkpoint]"
    "files s' = files ex_downloaded" "history s' = Some 1000"
    by blast
  have r: "get_reference_files ex_env = Inr [''/Reference/r1.zip'']" by (simp add: ex_env_def)
  have t: "trace ex_downloaded = [SessionOpen 0, SessionClose 0, DownloadTask ''/Reference/r1.zip'' None,
                SessionOpen 1, Retrieve 1 ''/Reference/r1.zip'' ''/d/Reference/r1.zip'',
                WriteFile ''/d/Reference/r1.zip'', SessionClose 1]"
    and f: "files ex_downloaded = [(''/d/Reference/r1.zip'', ZipArchive [(''ref.txt'', ''R'')])]"
    by (simp_all add: ex_downloaded_def)
  show ?thesis
    by (simp add: r s' extracted_append downloaded_append extracted_MakeDirs downloaded_MakeDirs t f)
qed

lemma downloaded_mid:
  "list_all (\<lambda>e. e = WriteFile lf \<or> e = PoolTerminate) mid \<Longrightarrow> downloaded mid = []"
proof (induction mid)
  case Nil
  show ?case by simp
next
  case (Cons e mid)
  from Cons.prems have "e = WriteFile lf \<or> e = PoolTerminate" by simp
  then have "downloaded (e # mid) = downloaded mid" by (elim disjE) simp_all
  with Cons show ?case by simp
qed

lemma download_file_downloaded:
  "\<exists>evs. trace (snd (download_file env x s)) = trace s @ evs \<and> downloaded evs = [fst x]"
proof -
  obtain rf dd where x: "x = (rf, dd)" by (cases x)
  from download_file_trace [of env rf dd s] obtain mid where
    mid: "list_all (\<lambda>e. e = WriteFile (get_local_path env rf dd) \<or> e = PoolTerminate) mid"
    and tr: "trace (snd (download_file env (rf, dd) s)) =
       trace s @ DownloadTask rf (pool (glob s)) #
         (if ftp_connect env (next_session s) = None
          then [SessionOpen (next_session s),
                Retrieve (next_session s) rf (get_local_path env rf dd)] @ mid @
               [SessionClose (next_session s)]
          else [])"
    by blast
  let ?evs = "DownloadTask rf (pool (glob s)) #
         (if ftp_connect env (next_session s) = None
          then [SessionOpen (next_session s),
                Retrieve (next_session s) rf (get_local_path env rf dd)] @ mid @
               [SessionClose (next_session s)]
          else [])"
  have "downloaded ?evs = [rf]" using downloaded_mid [OF mid] by (simp add: downloaded_append)
  with tr have "trace (snd (download_file env x s)) = trace s @ ?evs \<and> downloaded ?evs = [fst x]"
    by (simp add: x)
  then show ?thesis by (rule exI)
qed

lemma for_each_downloaded:
  "for_each (download_file env) xs s = (None, s') \<Longrightarrow>
   \<exists>evs. trace s' = trace s @ evs \<and> downloaded evs = map fst xs"
proof (induction xs arbitrary: s)
  case Nil
  then show ?case by simp
next
  case (Cons x xs)
  obtain r s1 where f: "download_file env x s = (r, s1)" by (cases "download_file env x s")
  with Cons.prems have r: "r = None" and rest: "for_each (download_file env) xs s1 = (None, s')"
    by (auto simp: for_each_Cons split: option.splits)
  from download_file_downloaded [of env x s] f obtain e1 where
    e1: "trace s1 = trace s @ e1" "downloaded e1 = [fst x]" by auto
  from Cons.IH [OF rest] obtain e2 where e2: "trace s' = trace s1 @ e2" "downloaded e2 = map fst xs"
    by blast
  from e1 e2 have "trace s' = trace s @ (e1 @ e2) \<and> downloaded (e1 @ e2) = map fst (x # xs)"
    by (simp add: downloaded_append)
  then show ?case by (rule exI)
qed

lemma run_chunks_downloaded:
  "run_chunks (download_file env) cs s = (None, s') \<Longrightarrow>
   \<exists>evs. trace s' = trace s @ evs \<and> downloaded evs = map fst (concat cs)"
proof (induction cs arbitrary: s)
  case Nil
  then show ?case by simp
next
  case (Cons c cs)
  obtain r s1 where f: "for_each (download_file env) c s = (r, s1)"
    by (cases "for_each (download_file env) c s")
  obtain r' s2 where g: "run_chunks (download_file env) cs s1 = (r', s2)"
    by (cases "run_chunks (download_file env) cs s1")
  from Cons.prems f g have r: "r = None" "r' = None" "s2 = s'"
    by (auto split: option.splits)
  from for_each_downloaded [of env c s s1] f r obtain e1 where
    e1: "trace s1 = trace s @ e1" "downloaded e1 = map fst c" by auto
  from Cons.IH [of s1] g r obtain e2 where
    e2: "trace s' = trace s1 @ e2" "downloaded e2 = map fst (concat cs)" by auto
  from e1 e2 have "trace s' = trace s @ (e1 @ e2) \<and> downloaded (e1 @ e2) = map fst (concat (c # cs))"
    by (simp add: downloaded_append)
  then show ?case by (rule exI)
qed

lemma concat_chunked: "0 < n \<Longrightarrow> concat (chunked n xs) = xs"
proof (induction n xs rule: chunked.induct)
  case (1 n xs)
  show ?case
  proof (cases "xs = []")
    case True
    then show ?thesis by (simp add: chunked_Nil)
  next
    case False
    with 1 have "concat (chunked n (drop n xs)) = drop n xs" by simp
    with False 1(2) show ?thesis by (simp add: chunked_step)
  qed
qed

lemma chunksize_pos: "0 < n \<Longrightarrow> 0 < procs \<Longrightarrow> 0 < chunksize n procs"
proof -
  assume n: "0 < n" and p: "0 < procs"
  show ?thesis
  proof (cases "n mod (procs * 4) = 0")
    case True
    then have "procs * 4 dvd n" by auto
    with n have "procs * 4 \<le> n" by (rule_tac dvd_imp_le)
    with p have "0 < n div (procs * 4)" by (simp add: div_greater_zero_iff)
    with True show ?thesis by (simp add: chunksize_def)
  next
    case False
    then show ?thesis by (simp add: chunksize_def)
  qed
qed

lemma processes_pos: "0 < processes env"
  by (simp add: processes_def)

lemma concat_chunks: "concat (chunked (chunksize (length xs) (processes env)) xs) = xs"
proof (cases xs)
  case Nil
  then show ?thesis by (simp add: chunked_Nil)
next
  case (Cons x xs')
  then have "0 < chunksize (length xs) (processes env)"
    by (intro chunksize_pos processes_pos) simp
  then show ?thesis by (rule concat_chunked)
qed

lemma starmap_downloaded:
  "starmap (processes env) (download_file env) xs s = (None, s') \<Longrightarrow>
   \<exists>evs. trace s' = trace s @ evs \<and> downloaded evs = map fst xs"
  using run_chunks_downloaded [of env "chunked (chunksize (length xs) (processes env)) xs" s s']
  by (simp add: starmap_def concat_chunks)

lemma download_batches_downloaded:
  "download_batches env bs s = (None, s') \<Longrightarrow>
   \<exists>evs. trace s' = trace s @ evs \<and> downloaded evs = map fst (concat bs)"
proof (induction bs arbitrary: s)
  case Nil
  then show ?case by (simp add: download_batches_def)
next
  case (Cons b bs)
  obtain r s1 where f: "starmap (processes env) (download_file env) b s = (r, s1)"
    by (cases "starmap (processes env) (download_file env) b s")
  with Cons.prems have r: "r = None" and rest: "download_batches env bs s1 = (None, s')"
    by (auto simp: download_batches_def split: option.splits)
  from starmap_downloaded [of env b s s1] f r obtain e1 where
    e1: "trace s1 = trace s @ e1" "downloaded e1 = map fst b" by auto
  from Cons.IH [OF rest] obtain e2 where
    e2: "trace s' = trace s1 @ e2" "downloaded e2 = map fst (concat bs)" by blast
  from e1 e2 have "trace s' = trace s @ (e1 @ e2) \<and> downloaded (e1 @ e2) = map fst (concat (b # bs))"
    by (simp add: downloaded_append)
  then show ?case by (rule exI)
qed

lemma download_data_files_downloaded:
  assumes "download_data_files env dd s = (None, s')"
  shows "\<exists>cover onix bklst ref evs.
           listings env (cover_size (glob s)) = Inr (cover, onix, bklst, ref) \<and>
           trace s' = trace s @ evs \<and> downloaded evs = cover @ onix @ bklst @ ref"
proof -
  let ?n = "next_session s"
  let ?s3 = "emit (SessionClose ?n) (emit (SessionOpen ?n) (s\<lparr>next_session := Suc ?n\<rparr>))"
  from assms have c: "ftp_connect env ?n = None"
    by (auto simp: download_data_files_def Let_def split: option.splits)
  from assms c obtain cover onix bklst ref where
    l: "listings env (cover_size (glob s)) = Inr (cover, onix, bklst, ref)"
    by (cases "listings env (cover_size (glob s))")
      (auto simp: download_data_files_def Let_def emit_def)
  from assms c l have b: "download_batches env
        [map (\<lambda>p. (p, dd)) cover, map (\<lambda>p. (p, dd)) onix,
         map (\<lambda>p. (p, dd)) bklst, map (\<lambda>p. (p, dd)) ref] ?s3 = (None, s')"
    by (simp add: download_data_files_def Let_def emit_def)
  from download_batches_downloaded [OF b] obtain e2 where
    e2: "trace s' = trace ?s3 @ e2"
    "downloaded e2 = map fst (concat [map (\<lambda>p. (p, dd)) cover, map (\<lambda>p. (p, dd)) onix,
         map (\<lambda>p. (p, dd)) bklst, map (\<lambda>p. (p, dd)) ref])" by blast
  have m: "map (fst \<circ> (\<lambda>p. (p, dd))) ps = ps" for ps :: "path list" by (induction ps) simp_all
  have "trace s' = trace s @ ([SessionOpen ?n, SessionClose ?n] @ e2) \<and>
      downloaded ([SessionOpen ?n, SessionClose ?n] @ e2) = cover @ onix @ bklst @ ref"
    using e2 by (simp add: emit_def m)
  with l show ?thesis by blast
qed

lemma download_events_extracted: "list_all (is_download_event g) evs \<Longrightarrow> extracted evs = []"
  by (induction evs rule: extracted.induct) simp_all

lemma extract_events_downloaded: "list_all is_extract_event evs \<Longrightarrow> downloaded evs = []"
  by (induction evs rule: downloaded.induct) simp_all

lemma seq4:
  "seq [a, b, c, d] s = (None, t) \<Longrightarrow>
   \<exists>sa sb sc. a s = (None, sa) \<and> b sa = (None, sb) \<and> c sb = (None, sc) \<and> d sc = (None, t)"
  by (auto split: prod.splits option.splits)

lemma frame_events:
  assumes "frame P s s'"
  obtains evs where "trace s' = trace s @ evs" and "list_all P evs"
  using assms by (auto simp: frame_def)

section \<open>A failing download\<close>

lemma for_each_fails:
  assumes "for_each f pre s = (None, s1)" and "f x s1 = (Some e, s2)"
  shows "for_each f (pre @ x # post) s = (Some e, s2)"
  using assms
proof (induction pre arbitrary: s)
  case Nil
  then show ?case by (simp add: for_each_Cons)
next
  case (Cons a pre)
  obtain r sa where a: "f a s = (r, sa)" by (cases "f a s")
  with Cons.prems(1) have "r = None" and "for_each f pre sa = (None, s1)"
    by (auto simp: for_each_Cons split: option.splits)
  with Cons.IH [of sa] Cons.prems(2) a show ?case by (simp add: for_each_Cons)
qed

lemma run_chunks_append:
  "run_chunks f (cs1 @ cs2) s =
     (case run_chunks f cs1 s of
        (r1, s1) \<Rightarrow>
          (case run_chunks f cs2 s1 of
             (r2, s2) \<Rightarrow> ((case r1 of None \<Rightarrow> r2 | Some e \<Rightarrow> Some e), s2)))"
  by (induction cs1 arbitrary: s) (auto split: prod.splits option.splits)

lemma run_chunks_fails:
  assumes "run_chunks f cs1 s = (r1, s1)" and "for_each f c s1 = (Some e, s3)"
  shows "\<exists>e'. run_chunks f (cs1 @ c # cs2) s = (Some e', snd (run_chunks f cs2 s3)) \<and>
              (r1 = None \<longrightarrow> e' = e)"
  using assms by (cases "run_chunks f cs2 s3") (auto simp: run_chunks_append split: option.splits)

lemma seq_fails: "fst (g s) = Some e \<Longrightarrow> seq (g # gs) s = g s"
  by (cases "g s") auto

lemma download_batches_Cons:
  "download_batches env (b # later) s =
     seq (starmap (processes env) (download_file env) b #
          map (\<lambda>batch. starmap (processes env) (download_file env) batch) later) s"
  by (simp add: download_batches_def)

lemma pipeline_download_fails:
  assumes "fst (download_data_files env dd s) = Some e"
  shows "seq (pipeline env dd wd @ [save_run_history env]) s = download_data_files env dd s"
  using seq_fails [of "download_data_files env dd" s e] assms by (simp add: pipeline_def del: seq.simps)

text \<open>
  C4 as amended. Nothing in \<open>ingram.py\<close> catches the exception of a download task or
  records it. When the task \<open>x\<close> of a batch raises \<open>e\<close>, in a chunk after the tasks \<open>pre\<close>
  have returned, the tasks \<open>post\<close> after it in the chunk are not run; the chunks \<open>cs2\<close>
  after it are the last thing run: \<open>starmap\<close> re-raises, and the batches \<open>later\<close> are not
  started. If no earlier chunk raised, the exception is \<open>e\<close>. And when the download phase
  raised, the rest of \<open>main\<close> (extraction and checkpoint) is not run.
\<close>

theorem download_failure_aborts:
  assumes "chunked (chunksize (length b) (processes env)) b = cs1 @ (pre @ x # post) # cs2"
      and "run_chunks (download_file env) cs1 s = (r1, s1)"
      and "for_each (download_file env) pre s1 = (None, s2)"
      and "download_file env x s2 = (Some e, s3)"
  shows "(\<exists>e'. download_batches env (b # later) s =
                 (Some e', snd (run_chunks (download_file env) cs2 s3)) \<and>
               (r1 = None \<longrightarrow> e' = e)) \<and>
         (fst (download_data_files env dd s0) \<noteq> None \<longrightarrow>
            seq (pipeline env dd wd @ [save_run_history env]) s0 = download_data_files env dd s0)"
proof -
  have c: "for_each (download_file env) (pre @ x # post) s1 = (Some e, s3)"
    using assms(3,4) by (rule for_each_fails)
  from run_chunks_fails [OF assms(2) c, of cs2] obtain e' where
    e': "run_chunks (download_file env) (cs1 @ (pre @ x # post) # cs2) s =
           (Some e', snd (run_chunks (download_file env) cs2 s3))" "r1 = None \<longrightarrow> e' = e"
    by blast
  then have st: "starmap (processes env) (download_file env) b s =
      (Some e', snd (run_chunks (download_file env) cs2 s3))"
    by (simp add: starmap_def assms(1))
  then have "fst (starmap (processes env) (download_file env) b s) = Some e'" by simp
  from seq_fails [of "starmap (processes env) (download_file env) b" s e'
      "map (\<lambda>batch. starmap (processes env) (download_file env) batch) later"] this st
  have "download_batches env (b # later) s = (Some e', snd (run_chunks (download_file env) cs2 s3))"
    by (simp add: download_batches_Cons del: seq.simps)
  with e'(2) have 1: "\<exists>e'. download_batches env (b # later) s =
                 (Some e', snd (run_chunks (download_file env) cs2 s3)) \<and>
               (r1 = None \<longrightarrow> e' = e)" by blast
  have 2: "fst (download_data_files env dd s0) \<noteq> None \<longrightarrow>
            seq (pipeline env dd wd @ [save_run_history env]) s0 = download_data_files env dd s0"
    using pipeline_download_fails [of env dd s0 _ wd] by auto
  from 1 2 show ?thesis by (rule conjI)
qed

lemma fail_env_simps:
  "processes fail_env = 1" "ftp_connect fail_env n = None"
  "get_local_path fail_env p d = d @ p"
  "ftp_download_file fail_env n p =
     (if p = ''/Imageswk/c1.zip'' then Inl TransferError else Inr (ZipArchive []))"
  "listings fail_env cs = Inr ([''/Imageswk/c1.zip'', ''/Imageswk/c2.zip'', ''/Imageswk/c3.zip'',
       ''/Imageswk/c4.zip'', ''/Imageswk/c5.zip''], [''/ONIX/o1.zip''], [], [''/Reference/r1.zip''])"
  by (simp_all add: fail_env_def ex_env_def processes_def listings_def)

lemma fail_download_file:
  "download_file fail_env (p, ''/d'') s =
     (if p = ''/Imageswk/c1.zip''
      then (Some TransferError,
            s\<lparr>next_session := Suc (next_session s),
              trace := trace s @ [DownloadTask p (pool (glob s)), SessionOpen (next_session s),
                                  Retrieve (next_session s) p (''/d'' @ p), SessionClose (next_session s)]\<rparr>)
      else (None,
            s\<lparr>next_session := Suc (next_session s),
              files := (''/d'' @ p, ZipArchive []) # filter (\<lambda>e. fst e \<noteq> ''/d'' @ p) (files s),
              trace := trace s @ [DownloadTask p (pool (glob s)), SessionOpen (next_session s),
                                  Retrieve (next_session s) p (''/d'' @ p), WriteFile (''/d'' @ p),
                                  SessionClose (next_session s)]\<rparr>))"
  by (simp add: download_file_def with_session_def emit_def write_file_def Let_def fail_env_simps)

lemma fail_chunks:
  "chunked (chunksize (length [a, b, c, d, e]) (processes fail_env)) [a, b, c, d, e] =
     [[a, b], [c, d], [e]]"
proof -
  have "chunksize (length [a, b, c, d, e]) (processes fail_env) = 2"
    by (simp add: chunksize_def fail_env_simps)
  then show ?thesis by (simp add: chunked_step chunked_Nil)
qed

lemma fail_first_task:
  "download_file fail_env (''/Imageswk/c1.zip'', ''/d'') fail_listed =
     (Some TransferError, snd (download_file fail_env (''/Imageswk/c1.zip'', ''/d'') fail_listed))"
  by (simp add: fail_download_file)

lemma fail_download:
  "fst (download_data_files fail_env ''/d'' ex_configured) = Some TransferError \<and>
   downloaded (trace (snd (download_data_files fail_env ''/d'' ex_configured))) =
     [''/Imageswk/c1.zip'', ''/Imageswk/c3.zip'', ''/Imageswk/c4.zip'', ''/Imageswk/c5.zip''] \<and>
   extracted (trace (snd (download_data_files fail_env ''/d'' ex_configured))) = [] \<and>
   Checkpoint \<notin> set (trace (snd (download_data_files fail_env ''/d'' ex_configured))) \<and>
   history (snd (download_data_files fail_env ''/d'' ex_configured)) = None"
proof -
  have n: "next_session ex_configured = 0" "trace ex_configured = []" "history ex_configured = None"
    by (simp_all add: ex_configured_def empty_world_def)
  have s: "starmap (processes fail_env) f [a, b, c, d, e] = run_chunks f [[a, b], [c, d], [e]]" for f a b c d e
    unfolding starmap_def fail_chunks by (rule refl)
  show ?thesis
    by (simp add: download_data_files_def Let_def fail_env_simps(2,5) n emit_def download_batches_def
          s for_each_Cons fail_download_file)
qed

lemma fail_config_get:
  "config_get fail_env ''host'' = Inr ''ftp.example.com''" "config_get fail_env ''user'' = Inr ''u''"
  "config_get fail_env ''passwd'' = Inr ''p''" "config_get fail_env ''download_dir'' = Inr ''/d''"
  "config_get fail_env ''working_dir'' = Inr ''/w''" "config_get fail_env ''cover_size'' = Inr ''j400w''"
  by (simp_all add: config_get_def fail_env_def ex_env_def ex_config_def)

lemma fail_main:
  "main fail_env empty_world = download_data_files fail_env ''/d'' ex_configured"
proof -
  have "expanduser fail_env p = p" for p by (simp add: fail_env_def ex_env_def)
  with main_run [OF fail_config_get, of empty_world]
  have "main fail_env empty_world =
      seq (pipeline fail_env ''/d'' ''/w'' @ [save_run_history fail_env]) ex_configured"
    by (simp add: ex_configured_def empty_world_def module_globals_def del: seq.simps)
  with pipeline_download_fails [of fail_env "''/d''" ex_configured TransferError "''/w''"] fail_download
  show ?thesis by simp
qed

text \<open>
  C4 says a failing download fails only its own work item: its siblings run, and the
  error is recorded. Here one worker downloads five cover archives and the first
  transfer fails. \<open>c2.zip\<close>, in the same chunk, is never entered although its transfer
  would succeed; the ONIX and reference batches are never started; \<open>main\<close> raises the
  TransferError, with no extraction and no checkpoint.
\<close>

theorem failed_download_aborts_run:
  "get_cover_files fail_env (Some ''j400w'') =
     Inr [''/Imageswk/c1.zip'', ''/Imageswk/c2.zip'', ''/Imageswk/c3.zip'', ''/Imageswk/c4.zip'',
          ''/Imageswk/c5.zip''] \<and>
   get_onix_files fail_env = Inr [''/ONIX/o1.zip''] \<and>
   ftp_download_file fail_env 2 ''/Imageswk/c2.zip'' = Inr (ZipArchive []) \<and>
   fst (main fail_env empty_world) = Some TransferError \<and>
   downloaded (trace (snd (main fail_env empty_world))) =
     [''/Imageswk/c1.zip'', ''/Imageswk/c3.zip'', ''/Imageswk/c4.zip'', ''/Imageswk/c5.zip''] \<and>
   extracted (trace (snd (main fail_env empty_world))) = [] \<and>
   Checkpoint \<notin> set (trace (snd (main fail_env empty_world))) \<and>
   history (snd (main fail_env empty_world)) = None"
  using fail_download by (simp add: fail_main) (simp add: fail_env_def ex_env_def)

theorem download_failure_aborts_witness:
  "chunked (chunksize (length [(''/Imageswk/c1.zip'', ''/d''), (''/Imageswk/c2.zip'', ''/d''),
        (''/Imageswk/c3.zip'', ''/d''), (''/Imageswk/c4.zip'', ''/d''), (''/Imageswk/c5.zip'', ''/d'')])
      (processes fail_env))
     [(''/Imageswk/c1.zip'', ''/d''), (''/Imageswk/c2.zip'', ''/d''),
      (''/Imageswk/c3.zip'', ''/d''), (''/Imageswk/c4.zip'', ''/d''), (''/Imageswk/c5.zip'', ''/d'')] =
     [] @ ([] @ (''/Imageswk/c1.zip'', ''/d'') # [(''/Imageswk/c2.zip'', ''/d'')]) #
       [[(''/Imageswk/c3.zip'', ''/d''), (''/Imageswk/c4.zip'', ''/d'')], [(''/Imageswk/c5.zip'', ''/d'')]] \<and>
   run_chunks (download_file fail_env) [] fail_listed = (None, fail_listed) \<and>
   for_each (download_file fail_env) [] fail_listed = (None, fail_listed) \<and>
   download_file fail_env (''/Imageswk/c1.zip'', ''/d'') fail_listed =
     (Some TransferError, snd (download_file fail_env (''/Imageswk/c1.zip'', ''/d'') fail_listed)) \<and>
   fst (download_data_files fail_env ''/d'' ex_configured) \<noteq> None \<and>
   download_batches fail_env
     ([(''/Imageswk/c1.zip'', ''/d''), (''/Imageswk/c2.zip'', ''/d''),
       (''/Imageswk/c3.zip'', ''/d''), (''/Imageswk/c4.zip'', ''/d''), (''/Imageswk/c5.zip'', ''/d'')] #
      [[(''/ONIX/o1.zip'', ''/d'')], [], [(''/Reference/r1.zip'', ''/d'')]]) fail_listed =
     (Some TransferError,
      snd (run_chunks (download_file fail_env)
             [[(''/Imageswk/c3.zip'', ''/d''), (''/Imageswk/c4.zip'', ''/d'')], [(''/Imageswk/c5.zip'', ''/d'')]]
             (snd (download_file fail_env (''/Imageswk/c1.zip'', ''/d'') fail_listed)))) \<and>
   seq (pipeline fail_env ''/d'' ''/w'' @ [save_run_history fail_env]) ex_configured =
     download_data_files fail_env ''/d'' ex_configured"
proof -
  have 1: "chunked (chunksize (length [(''/Imageswk/c1.zip'', ''/d''), (''/Imageswk/c2.zip'', ''/d''),
        (''/Imageswk/c3.zip'', ''/d''), (''/Imageswk/c4.zip'', ''/d''), (''/Imageswk/c5.zip'', ''/d'')])
      (processes fail_env))
     [(''/Imageswk/c1.zip'', ''/d''), (''/Imageswk/c2.zip'', ''/d''),
      (''/Imageswk/c3.zip'', ''/d''), (''/Imageswk/c4.zip'', ''/d''), (''/Imageswk/c5.zip'', ''/d'')] =
     [] @ ([] @ (''/Imageswk/c1.zip'', ''/d'') # [(''/Imageswk/c2.zip'', ''/d'')]) #
       [[(''/Imageswk/c3.zip'', ''/d''), (''/Imageswk/c4.zip'', ''/d'')], [(''/Imageswk/c5.zip'', ''/d'')]]"
    unfolding fail_chunks by simp
  have 2: "run_chunks (download_file fail_env) [] fail_listed = (None, fail_listed)" by simp
  have 3: "for_each (download_file fail_env) [] fail_listed = (None, fail_listed)" by simp
  note 4 = fail_first_task
  have 5: "fst (download_data_files fail_env ''/d'' ex_configured) \<noteq> None"
    using fail_download by simp
  from download_failure_aborts [OF 1 2 3 4,
      of "[[(''/ONIX/o1.zip'', ''/d'')], [], [(''/Reference/r1.zip'', ''/d'')]]" "''/d''" ex_configured "''/w''"] 5
  have "download_batches fail_env
     ([(''/Imageswk/c1.zip'', ''/d''), (''/Imageswk/c2.zip'', ''/d''),
       (''/Imageswk/c3.zip'', ''/d''), (''/Imageswk/c4.zip'', ''/d''), (''/Imageswk/c5.zip'', ''/d'')] #
      [[(''/ONIX/o1.zip'', ''/d'')], [], [(''/Reference/r1.zip'', ''/d'')]]) fail_listed =
     (Some TransferError,
      snd (run_chunks (download_file fail_env)
             [[(''/Imageswk/c3.zip'', ''/d''), (''/Imageswk/c4.zip'', ''/d'')], [(''/Imageswk/c5.zip'', ''/d'')]]
             (snd (download_file fail_env (''/Imageswk/c1.zip'', ''/d'') fail_listed))))"
    and "seq (pipeline fail_env ''/d'' ''/w'' @ [save_run_history fail_env]) ex_configured =
     download_data_files fail_env ''/d'' ex_configured"
    by auto
  with 1 2 3 4 5 show ?thesis by (intro conjI)
qed

section \<open>The checkpoint\<close>

lemma seq_take_fails:
  "k < length fs \<Longrightarrow> seq (take k fs) s = (None, t) \<Longrightarrow> (fs ! k) t = (Some e, t') \<Longrightarrow>
   seq fs s = (Some e, t')"
proof (induction fs arbitrary: k s)
  case Nil
  then show ?case by simp
next
  case (Cons f fs)
  show ?case
  proof (cases k)
    case 0
    with Cons.prems show ?thesis by simp
  next
    case (Suc j)
    obtain r s1 where f: "f s = (r, s1)" by (cases "f s")
    from Cons.prems(2) Suc f have r: "r = None" and rest: "seq (take j fs) s1 = (None, t)"
      by (auto split: option.splits)
    from Cons.prems(1,3) Suc have "j < length fs" "(fs ! j) t = (Some e, t')" by simp_all
    from Cons.IH [OF this(1) rest this(2)] f r show ?thesis by simp
  qed
qed

lemma stages_frame:
  assumes t: "trace s1 = trace s0" and h: "history s1 = history s0"
      and p: "seq (pipeline env dd wd) s1 = (r, s2)"
  shows "trace s2 = trace s0 @ new_events s0 s2 \<and> Checkpoint \<notin> set (new_events s0 s2) \<and>
         history s2 = history s0"
proof -
  from frame_pipeline [of s1 "pool (glob s1)" env dd wd] p
  have f: "frame (is_stage_event (pool (glob s1))) s1 s2" by simp
  from frame_new_events [OF f]
  have n: "trace s2 = trace s1 @ new_events s1 s2"
    "list_all (is_stage_event (pool (glob s1))) (new_events s1 s2)" by simp_all
  have e: "new_events s0 s2 = new_events s1 s2" by (simp add: new_events_def t)
  from n(2) have "Checkpoint \<notin> set (new_events s1 s2)" by (auto simp: list_all_iff)
  moreover from f have "history s2 = history s1" by (simp add: frame_def)
  ultimately show ?thesis using n(1) e t h by simp
qed

text \<open>
  C1. \<open>main\<close> runs the stages of \<open>pipeline\<close> (the download of all four categories, then
  the three extractions) from the configured world \<open>s1\<close>, and \<open>save_run_history\<close> after
  them. If stage \<open>k\<close> raises \<open>e\<close> after the stages before it have returned, \<open>main\<close>
  stops there with \<open>e\<close>: \<open>save_run_history\<close> was not called and the run history is as it
  was. Only when all stages have returned does \<open>main\<close> call \<open>save_run_history\<close>, once
  and as its last action; the history then holds the new timestamp, unless the write
  itself fails. When the configuration cannot be read, \<open>main\<close> raises before the first
  stage, with no event and the history as it was.
\<close>

theorem checkpoint_written_last:
  "(\<not> configured env \<longrightarrow>
      fst (main env s0) \<noteq> None \<and> trace (snd (main env s0)) = trace s0 \<and>
      history (snd (main env s0)) = history s0) \<and>
   (config_get env ''host'' = Inr h \<and> config_get env ''user'' = Inr u \<and>
    config_get env ''passwd'' = Inr pw \<and> config_get env ''download_dir'' = Inr dd \<and>
    config_get env ''working_dir'' = Inr wd \<and> config_get env ''cover_size'' = Inr cs \<longrightarrow>
    (let s1 = s0\<lparr>glob := (glob s0)\<lparr>host := Some h, user := Some u, passwd := Some pw,
                                     cover_size := Some cs\<rparr>\<rparr>;
         stages = pipeline env (expanduser env dd) (expanduser env wd)
     in (k < length stages \<and> seq (take k stages) s1 = (None, t) \<and> (stages ! k) t = (Some e, t') \<longrightarrow>
           main env s0 = (Some e, t') \<and>
           trace t' = trace s0 @ new_events s0 t' \<and> Checkpoint \<notin> set (new_events s0 t') \<and>
           history t' = history s0) \<and>
        (seq stages s1 = (None, s2) \<longrightarrow>
           main env s0 = save_run_history env s2 \<and>
           trace s2 = trace s0 @ new_events s0 s2 \<and> Checkpoint \<notin> set (new_events s0 s2) \<and>
           history s2 = history s0 \<and>
           trace (snd (main env s0)) = trace s2 @ [Checkpoint] \<and>
           (if history_writable env
            then fst (main env s0) = None \<and> history (snd (main env s0)) = Some (clock env)
            else fst (main env s0) = Some PersistenceError \<and>
                 history (snd (main env s0)) = history s0))))"
proof (intro conjI impI)
  assume "\<not> configured env"
  from main_not_configured [OF this, of s0] obtain e s1 where
    "main env s0 = (Some e, s1)" "trace s1 = trace s0" "history s1 = history s0" by blast
  then show "fst (main env s0) \<noteq> None" "trace (snd (main env s0)) = trace s0"
    "history (snd (main env s0)) = history s0" by simp_all
next
  assume c: "config_get env ''host'' = Inr h \<and> config_get env ''user'' = Inr u \<and>
    config_get env ''passwd'' = Inr pw \<and> config_get env ''download_dir'' = Inr dd \<and>
    config_get env ''working_dir'' = Inr wd \<and> config_get env ''cover_size'' = Inr cs"
  define s1 where "s1 = s0\<lparr>glob := (glob s0)\<lparr>host := Some h, user := Some u, passwd := Some pw,
                                     cover_size := Some cs\<rparr>\<rparr>"
  define stages where "stages = pipeline env (expanduser env dd) (expanduser env wd)"
  have m: "main env s0 = seq (stages @ [save_run_history env]) s1"
    using c main_run [of env h u pw dd wd cs s0] by (simp add: s1_def stages_def)
  have t1: "trace s1 = trace s0" and h1: "history s1 = history s0" by (simp_all add: s1_def)
  have B: "main env s0 = (Some e, t') \<and>
           trace t' = trace s0 @ new_events s0 t' \<and> Checkpoint \<notin> set (new_events s0 t') \<and>
           history t' = history s0"
    if "k < length stages \<and> seq (take k stages) s1 = (None, t) \<and> (stages ! k) t = (Some e, t')"
  proof -
    from that have p: "seq stages s1 = (Some e, t')" by (auto intro: seq_take_fails)
    then have "main env s0 = (Some e, t')" by (simp add: m seq_snoc)
    with stages_frame [OF t1 h1 p [unfolded stages_def]] show ?thesis by simp
  qed
  have C: "main env s0 = save_run_history env s2 \<and>
           trace s2 = trace s0 @ new_events s0 s2 \<and> Checkpoint \<notin> set (new_events s0 s2) \<and>
           history s2 = history s0 \<and>
           trace (snd (main env s0)) = trace s2 @ [Checkpoint] \<and>
           (if history_writable env
            then fst (main env s0) = None \<and> history (snd (main env s0)) = Some (clock env)
            else fst (main env s0) = Some PersistenceError \<and>
                 history (snd (main env s0)) = history s0)"
    if p: "seq stages s1 = (None, s2)"
  proof -
    from p have ms: "main env s0 = save_run_history env s2" by (simp add: m seq_snoc)
    from stages_frame [OF t1 h1 p [unfolded stages_def]]
    have f: "trace s2 = trace s0 @ new_events s0 s2" "Checkpoint \<notin> set (new_events s0 s2)"
      "history s2 = history s0" by simp_all
    show ?thesis using f by (simp add: ms save_run_history_def Let_def emit_def)
  qed
  from B C show "let s1 = s0\<lparr>glob := (glob s0)\<lparr>host := Some h, user := Some u, passwd := Some pw,
                                     cover_size := Some cs\<rparr>\<rparr>;
         stages = pipeline env (expanduser env dd) (expanduser env wd)
     in (k < length stages \<and> seq (take k stages) s1 = (None, t) \<and> (stages ! k) t = (Some e, t') \<longrightarrow>
           main env s0 = (Some e, t') \<and>
           trace t' = trace s0 @ new_events s0 t' \<and> Checkpoint \<notin> set (new_events s0 t') \<and>
           history t' = history s0) \<and>
        (seq stages s1 = (None, s2) \<longrightarrow>
           main env s0 = save_run_history env s2 \<and>
           trace s2 = trace s0 @ new_events s0 s2 \<and> Checkpoint \<notin> set (new_events s0 s2) \<and>
           history s2 = history s0 \<and>
           trace (snd (main env s0)) = trace s2 @ [Checkpoint] \<and>
           (if history_writable env
            then fst (main env s0) = None \<and> history (snd (main env s0)) = Some (clock env)
            else fst (main env s0) = Some PersistenceError \<and>
                 history (snd (main env s0)) = history s0))"
    unfolding Let_def s1_def [symmetric] stages_def [symmetric] by blast
qed

lemma ex_pipeline:
  "\<exists>s2. seq (pipeline ex_env ''/d'' ''/w'') ex_configured = (None, s2)"
proof -
  from ex_unzip_covers obtain s3 where
    s3: "unzip_covers_threaded ex_env [] ''/w'' ex_downloaded = (None, s3)"
    "files s3 = files ex_downloaded"
    by blast
  have z: "get_files_matching ex_env (files s3) (join ''/d'' [''ONIX'']) ''*.zip'' = []"
    "get_files_matching ex_env (files s3) (join ''/d'' [''ONIX_BKLST'']) ''*.zip'' = []"
    using ex_no_zips by (simp_all add: s3(2))
  have u: "unzip_onix_threaded ex_env [] dd wd s = (None, s)" for dd wd s
    by (simp add: unzip_onix_threaded_def starmap_Nil)
  have "seq (pipeline ex_env ''/d'' ''/w'') ex_configured = (None, s3)"
    by (simp add: pipeline_def ex_download ex_no_zips s3(1) z u)
  then show ?thesis by (rule exI)
qed

theorem checkpoint_written_last_witness:
  "(config_get fail_env ''host'' = Inr ''ftp.example.com'' \<and> config_get fail_env ''user'' = Inr ''u'' \<and>
    config_get fail_env ''passwd'' = Inr ''p'' \<and> config_get fail_env ''download_dir'' = Inr ''/d'' \<and>
    config_get fail_env ''working_dir'' = Inr ''/w'' \<and> config_get fail_env ''cover_size'' = Inr ''j400w'') \<and>
   (0 < length (pipeline fail_env ''/d'' ''/w'') \<and>
    seq (take 0 (pipeline fail_env ''/d'' ''/w'')) ex_configured = (None, ex_configured) \<and>
    (pipeline fail_env ''/d'' ''/w'' ! 0) ex_configured =
      (Some TransferError, snd (download_data_files fail_env ''/d'' ex_configured))) \<and>
   main fail_env empty_world =
     (Some TransferError, snd (download_data_files fail_env ''/d'' ex_configured)) \<and>
   Checkpoint \<notin> set (new_events empty_world (snd (download_data_files fail_env ''/d'' ex_configured))) \<and>
   history (snd (download_data_files fail_env ''/d'' ex_configured)) = history empty_world \<and>
   (config_get ex_env ''host'' = Inr ''ftp.example.com'' \<and> config_get ex_env ''user'' = Inr ''u'' \<and>
    config_get ex_env ''passwd'' = Inr ''p'' \<and> config_get ex_env ''download_dir'' = Inr ''/d'' \<and>
    config_get ex_env ''working_dir'' = Inr ''/w'' \<and> config_get ex_env ''cover_size'' = Inr ''j400w'') \<and>
   (\<exists>s2. seq (pipeline ex_env ''/d'' ''/w'') ex_configured = (None, s2) \<and>
         main ex_env empty_world = save_run_history ex_env s2 \<and>
         Checkpoint \<notin> set (new_events empty_world s2) \<and>
         trace (snd (main ex_env empty_world)) = trace s2 @ [Checkpoint] \<and>
         fst (main ex_env empty_world) = None \<and>
         history (snd (main ex_env empty_world)) = Some 1000)"
proof -
  have c: "empty_world\<lparr>glob := (glob empty_world)\<lparr>host := Some ''ftp.example.com'', user := Some ''u'',
             passwd := Some ''p'', cover_size := Some ''j400w''\<rparr>\<rparr> = ex_configured"
    by (simp add: ex_configured_def empty_world_def module_globals_def)
  have xf: "expanduser fail_env p = p" and xe: "expanduser ex_env p = p" for p
    by (simp_all add: fail_env_def ex_env_def)
  have w: "history_writable ex_env" "clock ex_env = 1000" by (simp_all add: ex_env_def)
  let ?t' = "snd (download_data_files fail_env ''/d'' ex_configured)"
  have st: "0 < length (pipeline fail_env ''/d'' ''/w'') \<and>
    seq (take 0 (pipeline fail_env ''/d'' ''/w'')) ex_configured = (None, ex_configured) \<and>
    (pipeline fail_env ''/d'' ''/w'' ! 0) ex_configured = (Some TransferError, ?t')"
    using fail_download by (simp add: pipeline_def prod_eq_iff)
  from checkpoint_written_last [where env = fail_env and ?s0.0 = empty_world
      and h = "''ftp.example.com''" and u = "''u''" and pw = "''p''" and dd = "''/d''"
      and wd = "''/w''" and cs = "''j400w''" and k = 0 and t = ex_configured
      and e = TransferError and t' = ?t', THEN conjunct2]
    fail_config_get st
  have 1: "main fail_env empty_world = (Some TransferError, ?t') \<and>
      Checkpoint \<notin> set (new_events empty_world ?t') \<and> history ?t' = history empty_world"
    unfolding Let_def c xf by blast
  from ex_pipeline obtain s2 where s2: "seq (pipeline ex_env ''/d'' ''/w'') ex_configured = (None, s2)" ..
  have cfg: "config_get ex_env ''host'' = Inr ''ftp.example.com'' \<and> config_get ex_env ''user'' = Inr ''u'' \<and>
    config_get ex_env ''passwd'' = Inr ''p'' \<and> config_get ex_env ''download_dir'' = Inr ''/d'' \<and>
    config_get ex_env ''working_dir'' = Inr ''/w'' \<and> config_get ex_env ''cover_size'' = Inr ''j400w''"
    using ex_config_get by simp
  note T = checkpoint_written_last [where env = ex_env and ?s0.0 = empty_world
      and h = "''ftp.example.com''" and u = "''u''" and pw = "''p''" and dd = "''/d''"
      and wd = "''/w''" and cs = "''j400w''" and ?s2.0 = s2 and k = 0 and t = ex_configured
      and e = TransferError and t' = ex_configured,
      THEN conjunct2, unfolded Let_def c xe, THEN mp, OF cfg, THEN conjunct2, THEN mp, OF s2]
  have a: "main ex_env empty_world = save_run_history ex_env s2" by (rule T [THEN conjunct1])
  have b: "Checkpoint \<notin> set (new_events empty_world s2)"
    by (rule T [THEN conjunct2, THEN conjunct2, THEN conjunct1])
  have d: "trace (snd (main ex_env empty_world)) = trace s2 @ [Checkpoint]"
    by (rule T [THEN conjunct2, THEN conjunct2, THEN conjunct2, THEN conjunct2, THEN conjunct1])
  have "if history_writable ex_env
       then fst (main ex_env empty_world) = None \<and>
            history (snd (main ex_env empty_world)) = Some (clock ex_env)
       else fst (main ex_env empty_world) = Some PersistenceError \<and>
            history (snd (main ex_env empty_world)) = history empty_world"
    by (rule T [THEN conjunct2, THEN conjunct2, THEN conjunct2, THEN conjunct2, THEN conjunct2])
  with w have e: "fst (main ex_env empty_world) = None \<and>
         history (snd (main ex_env empty_world)) = Some 1000" by (simp only: if_True)
  from a b d e have 2: "main ex_env empty_world = save_run_history ex_env s2 \<and>
         Checkpoint \<notin> set (new_events empty_world s2) \<and>
         trace (snd (main ex_env empty_world)) = trace s2 @ [Checkpoint] \<and>
         fst (main ex_env empty_world) = None \<and>
         history (snd (main ex_env empty_world)) = Some 1000" by (intro conjI) (elim conjE, assumption)+
  with s2 have 3: "\<exists>s2. seq (pipeline ex_env ''/d'' ''/w'') ex_configured = (None, s2) \<and>
         main ex_env empty_world = save_run_history ex_env s2 \<and>
         Checkpoint \<notin> set (new_events empty_world s2) \<and>
         trace (snd (main ex_env empty_world)) = trace s2 @ [Checkpoint] \<and>
         fst (main ex_env empty_world) = None \<and>
         history (snd (main ex_env empty_world)) = Some 1000"
    by (intro exI [of _ s2] conjI) (rule s2, (elim conjE, assumption)+)
  from fail_config_get have fcfg: "config_get fail_env ''host'' = Inr ''ftp.example.com'' \<and> config_get fail_env ''user'' = Inr ''u'' \<and>
    config_get fail_env ''passwd'' = Inr ''p'' \<and> config_get fail_env ''download_dir'' = Inr ''/d'' \<and>
    config_get fail_env ''working_dir'' = Inr ''/w'' \<and> config_get fail_env ''cover_size'' = Inr ''j400w''"
    by simp
  from fcfg st 1 cfg 3 show ?thesis by (intro conjI) (elim conjE, assumption)+
qed

section \<open>Every category is downloaded, three are extracted\<close>

lemma fs_events_quiet: "list_all is_fs_event evs \<Longrightarrow> extracted evs = [] \<and> downloaded evs = []"
proof (induction evs)
  case Nil
  show ?case by simp
next
  case (Cons e evs)
  then show ?case by (cases e) simp_all
qed

lemma frame_fs_quiet:
  assumes "frame is_fs_event s s'"
  shows "\<exists>evs. trace s' = trace s @ evs \<and> extracted evs = [] \<and> downloaded evs = []"
proof -
  from assms obtain evs where "trace s' = trace s @ evs" "list_all is_fs_event evs"
    by (rule frame_events)
  with fs_events_quiet [of evs] show ?thesis by blast
qed

lemma extract_zip_extracted:
  "\<exists>evs. trace (snd (extract_zip x s)) = trace s @ evs \<and> extracted evs = [fst x] \<and> downloaded evs = []"
proof -
  obtain z td where x: "x = (z, td)" by (cases x)
  let ?s1 = "emit (ExtractTask z td) s"
  have t1: "trace ?s1 = trace s @ [ExtractTask z td]" by (simp add: emit_def)
  show ?thesis
  proof (cases "open_zip ?s1 z")
    case (Inl e)
    with t1 have "trace (snd (extract_zip x s)) = trace s @ [ExtractTask z td] \<and>
        extracted [ExtractTask z td] = [fst x] \<and> downloaded [ExtractTask z td] = []"
      by (simp add: x extract_zip_def Let_def)
    then show ?thesis by (rule exI)
  next
    case (Inr zf)
    have "frame is_fs_event ?s1 (snd (zip_extractall zf td ?s1))"
      by (rule frame_zip_extractall) simp
    from frame_fs_quiet [OF this] obtain evs where
      evs: "trace (snd (zip_extractall zf td ?s1)) = trace ?s1 @ evs" "extracted evs = []" "downloaded evs = []"
      by blast
    with Inr t1 have "trace (snd (extract_zip x s)) = trace s @ (ExtractTask z td # evs) \<and>
        extracted (ExtractTask z td # evs) = [fst x] \<and> downloaded (ExtractTask z td # evs) = []"
      by (simp add: x extract_zip_def Let_def)
    then show ?thesis by (rule exI)
  qed
qed

lemma extract_cover_zip_extracted:
  "\<exists>evs. trace (snd (extract_cover_zip x s)) = trace s @ evs \<and> extracted evs = [fst x] \<and> downloaded evs = []"
proof -
  obtain z td where x: "x = (z, td)" by (cases x)
  let ?s1 = "emit (ExtractTask z td) s"
  have t1: "trace ?s1 = trace s @ [ExtractTask z td]" by (simp add: emit_def)
  show ?thesis
  proof (cases "open_zip ?s1 z")
    case (Inl e)
    with t1 have "trace (snd (extract_cover_zip x s)) = trace s @ [ExtractTask z td] \<and>
        extracted [ExtractTask z td] = [fst x] \<and> downloaded [ExtractTask z td] = []"
      by (simp add: x extract_cover_zip_def Let_def)
    then show ?thesis by (rule exI)
  next
    case (Inr zf)
    have "frame is_fs_event ?s1 (snd (for_each (extract_cover_entry zf td) (namelist zf) ?s1))"
      by (rule frame_for_each) (rule frame_extract_cover_entry, simp)
    from frame_fs_quiet [OF this] obtain evs where
      evs: "trace (snd (for_each (extract_cover_entry zf td) (namelist zf) ?s1)) = trace ?s1 @ evs"
      "extracted evs = []" "downloaded evs = []"
      by blast
    with Inr t1 have "trace (snd (extract_cover_zip x s)) = trace s @ (ExtractTask z td # evs) \<and>
        extracted (ExtractTask z td # evs) = [fst x] \<and> downloaded (ExtractTask z td # evs) = []"
      by (simp add: x extract_cover_zip_def Let_def)
    then show ?thesis by (rule exI)
  qed
qed

lemma for_each_extracted:
  assumes step: "\<And>x s. \<exists>evs. trace (snd (f x s)) = trace s @ evs \<and> extracted evs = [fst x] \<and> downloaded evs = []"
  shows "for_each f xs s = (None, s') \<Longrightarrow>
         \<exists>evs. trace s' = trace s @ evs \<and> extracted evs = map fst xs \<and> downloaded evs = []"
proof (induction xs arbitrary: s)
  case Nil
  then show ?case by simp
next
  case (Cons x xs)
  obtain r s1 where f: "f x s = (r, s1)" by (cases "f x s")
  with Cons.prems have r: "r = None" and rest: "for_each f xs s1 = (None, s')"
    by (auto simp: for_each_Cons split: option.splits)
  from step [of x s] f obtain e1 where
    e1: "trace s1 = trace s @ e1" "extracted e1 = [fst x]" "downloaded e1 = []" by auto
  from Cons.IH [OF rest] obtain e2 where
    e2: "trace s' = trace s1 @ e2" "extracted e2 = map fst xs" "downloaded e2 = []" by blast
  from e1 e2 have "trace s' = trace s @ (e1 @ e2) \<and> extracted (e1 @ e2) = map fst (x # xs) \<and>
      downloaded (e1 @ e2) = []"
    by (simp add: extracted_append downloaded_append)
  then show ?case by (rule exI)
qed

lemma run_chunks_extracted:
  assumes step: "\<And>x s. \<exists>evs. trace (snd (f x s)) = trace s @ evs \<and> extracted evs = [fst x] \<and> downloaded evs = []"
  shows "run_chunks f cs s = (None, s') \<Longrightarrow>
         \<exists>evs. trace s' = trace s @ evs \<and> extracted evs = map fst (concat cs) \<and> downloaded evs = []"
proof (induction cs arbitrary: s)
  case Nil
  then show ?case by simp
next
  case (Cons c cs)
  obtain r s1 where f: "for_each f c s = (r, s1)" by (cases "for_each f c s")
  obtain r' s2 where g: "run_chunks f cs s1 = (r', s2)" by (cases "run_chunks f cs s1")
  from Cons.prems f g have r: "r = None" "r' = None" "s2 = s'"
    by (auto split: option.splits)
  from for_each_extracted [of f c s s1, OF step] f r obtain e1 where
    e1: "trace s1 = trace s @ e1" "extracted e1 = map fst c" "downloaded e1 = []" by auto
  from Cons.IH [of s1] g r obtain e2 where
    e2: "trace s' = trace s1 @ e2" "extracted e2 = map fst (concat cs)" "downloaded e2 = []" by auto
  from e1 e2 have "trace s' = trace s @ (e1 @ e2) \<and> extracted (e1 @ e2) = map fst (concat (c # cs)) \<and>
      downloaded (e1 @ e2) = []"
    by (simp add: extracted_append downloaded_append)
  then show ?case by (rule exI)
qed

lemma starmap_extracted:
  assumes step: "\<And>x s. \<exists>evs. trace (snd (f x s)) = trace s @ evs \<and> extracted evs = [fst x] \<and> downloaded evs = []"
      and ok: "starmap (processes env) f xs s = (None, s')"
  shows "\<exists>evs. trace s' = trace s @ evs \<and> extracted evs = map fst xs \<and> downloaded evs = []"
  using run_chunks_extracted [of f "chunked (chunksize (length xs) (processes env)) xs" s s', OF step] ok
  by (simp add: starmap_def concat_chunks)

lemma map_fst_pair: "map (fst \<circ> (\<lambda>z. (z, g z))) zs = zs"
  by (induction zs) simp_all

lemma unzip_onix_extracted:
  assumes "unzip_onix_threaded env zs dd wd s = (None, s')"
  shows "\<exists>evs. trace s' = trace s @ evs \<and> extracted evs = zs \<and> downloaded evs = []"
  using starmap_extracted [of extract_zip env "map (\<lambda>z. (z, onix_extract_dir dd wd z)) zs" s s',
      OF extract_zip_extracted] assms
  by (simp add: unzip_onix_threaded_def map_fst_pair)

lemma unzip_covers_extracted:
  assumes "unzip_covers_threaded env zs wd s = (None, s')"
  shows "\<exists>evs. trace s' = trace s @ evs \<and> extracted evs = zs \<and> downloaded evs = []"
proof -
  from assms obtain cs where cs: "cover_size (glob s) = Some cs"
    by (cases "cover_size (glob s)") (simp_all add: unzip_covers_threaded_def)
  obtain r s1 where p: "for_each (makedirs True) (shard_dirs wd cs) s = (r, s1)"
    by (cases "for_each (makedirs True) (shard_dirs wd cs) s")
  obtain r' s2 where q: "starmap (processes env) extract_cover_zip
      (map (\<lambda>z. (z, join wd [''Imageswk'', cs])) zs) s1 = (r', s2)"
    by (cases "starmap (processes env) extract_cover_zip
      (map (\<lambda>z. (z, join wd [''Imageswk'', cs])) zs) s1")
  from assms cs p have r: "r = None" by (cases r) (simp_all add: unzip_covers_threaded_def)
  from assms cs p q r have "r' = None \<and> s2 = s'"
    by (cases r') (simp_all add: unzip_covers_threaded_def)
  with q have w: "starmap (processes env) extract_cover_zip
      (map (\<lambda>z. (z, join wd [''Imageswk'', cs])) zs) s1 = (None, s')" by simp
  have "frame is_fs_event s (snd (for_each (makedirs True) (shard_dirs wd cs) s))"
    by (rule frame_precreate) simp
  with p have "frame is_fs_event s s1" by simp
  from frame_fs_quiet [OF this] obtain e1 where
    e1: "trace s1 = trace s @ e1" "extracted e1 = []" "downloaded e1 = []" by blast
  from starmap_extracted [of extract_cover_zip env _ s1 s', OF extract_cover_zip_extracted w]
  obtain e2 where e2: "trace s' = trace s1 @ e2" "extracted e2 = zs" "downloaded e2 = []"
    by (auto simp: map_fst_pair)
  from e1 e2 have "trace s' = trace s @ (e1 @ e2) \<and> extracted (e1 @ e2) = zs \<and> downloaded (e1 @ e2) = []"
    by (simp add: extracted_append downloaded_append)
  then show ?thesis by (rule exI)
qed

text \<open>
  C6 as amended. A run of \<open>main\<close> that succeeds has the events \<open>ev_download\<close> of
  \<open>download_data_files\<close>, then the events \<open>ev_extract\<close> of the three extraction calls,
  then the checkpoint. The downloads entered are the files of the four listings (covers,
  ONIX, ONIX backlist, reference), in this order, and all of them come before the first
  extraction. The extractions entered are exactly the archives \<open>get_files_matching\<close>
  finds under \<open>Imageswk\<close> in the files present after the download, then those it
  finds under \<open>ONIX\<close> in the files present after the cover extraction, then those
  under \<open>ONIX_BKLST\<close> in the files present after the ONIX extraction, each once and
  in this order; each returned without an exception, since the run succeeded. \<open>main\<close>
  has no extraction of the reference category.
\<close>

theorem three_categories_extracted:
  assumes "config_get env ''host'' = Inr h" "config_get env ''user'' = Inr u"
    "config_get env ''passwd'' = Inr pw" "config_get env ''download_dir'' = Inr dd"
    "config_get env ''working_dir'' = Inr wd" "config_get env ''cover_size'' = Inr cs"
    and run: "main env s0 = (None, s')"
  shows "let s1 = s0\<lparr>glob := (glob s0)\<lparr>host := Some h, user := Some u, passwd := Some pw,
                                       cover_size := Some cs\<rparr>\<rparr>;
             download_dir = expanduser env dd;
             working_dir = expanduser env wd;
             sa = snd (download_data_files env download_dir s1);
             cover_zips = get_files_matching env (files sa) (join download_dir [''Imageswk'']) ''*.zip'';
             sb = snd (unzip_covers_threaded env cover_zips working_dir sa);
             onix_zips = get_files_matching env (files sb) (join download_dir [''ONIX'']) ''*.zip'';
             sc = snd (unzip_onix_threaded env onix_zips download_dir working_dir sb);
             bklst_zips = get_files_matching env (files sc) (join download_dir [''ONIX_BKLST'']) ''*.zip''
         in \<exists>cover_paths onix_paths bklst_paths ref_paths ev_download ev_extract.
              listings env (Some cs) = Inr (cover_paths, onix_paths, bklst_paths, ref_paths) \<and>
              trace sa = trace s0 @ ev_download \<and>
              trace s' = trace s0 @ ev_download @ ev_extract @ [Checkpoint] \<and>
              downloaded ev_download = cover_paths @ onix_paths @ bklst_paths @ ref_paths \<and>
              extracted ev_download = [] \<and>
              downloaded ev_extract = [] \<and>
              extracted ev_extract = cover_zips @ onix_zips @ bklst_zips \<and>
              Checkpoint \<notin> set (ev_download @ ev_extract)"
proof -
  define s1 where "s1 = s0\<lparr>glob := (glob s0)\<lparr>host := Some h, user := Some u, passwd := Some pw,
                                       cover_size := Some cs\<rparr>\<rparr>"
  define download_dir where "download_dir = expanduser env dd"
  define working_dir where "working_dir = expanduser env wd"
  define sa where "sa = snd (download_data_files env download_dir s1)"
  define cover_zips where
    "cover_zips = get_files_matching env (files sa) (join download_dir [''Imageswk'']) ''*.zip''"
  define sb where "sb = snd (unzip_covers_threaded env cover_zips working_dir sa)"
  define onix_zips where
    "onix_zips = get_files_matching env (files sb) (join download_dir [''ONIX'']) ''*.zip''"
  define sc where "sc = snd (unzip_onix_threaded env onix_zips download_dir working_dir sb)"
  define bklst_zips where
    "bklst_zips = get_files_matching env (files sc) (join download_dir [''ONIX_BKLST'']) ''*.zip''"
  have t1: "trace s1 = trace s0" and h1: "history s1 = history s0"
    and c1: "cover_size (glob s1) = Some cs" by (simp_all add: s1_def)
  have m: "main env s0 = seq (pipeline env download_dir working_dir @ [save_run_history env]) s1"
    using main_run [OF assms(1-6), of s0] by (simp add: s1_def download_dir_def working_dir_def)
  obtain r2 s2 where p: "seq (pipeline env download_dir working_dir) s1 = (r2, s2)"
    by (cases "seq (pipeline env download_dir working_dir) s1")
  from run m p have r2: "r2 = None" and sv: "save_run_history env s2 = (None, s')"
    by (auto simp: seq_snoc split: option.splits)
  from sv have t': "trace s' = trace s2 @ [Checkpoint]"
    by (auto simp: save_run_history_def Let_def emit_def split: if_splits)
  from p r2 have "seq [download_data_files env download_dir,
      (\<lambda>s. unzip_covers_threaded env
              (get_files_matching env (files s) (join download_dir [''Imageswk'']) ''*.zip'') working_dir s),
      (\<lambda>s. unzip_onix_threaded env
              (get_files_matching env (files s) (join download_dir [''ONIX'']) ''*.zip'')
              download_dir working_dir s),
      (\<lambda>s. unzip_onix_threaded env
              (get_files_matching env (files s) (join download_dir [''ONIX_BKLST'']) ''*.zip'')
              download_dir working_dir s)] s1
      = (None, s2)"
    by (simp add: pipeline_def del: seq.simps)
  from seq4 [OF this] obtain ta tb tc where
    a: "download_data_files env download_dir s1 = (None, ta)"
    and b: "unzip_covers_threaded env
              (get_files_matching env (files ta) (join download_dir [''Imageswk'']) ''*.zip'')
              working_dir ta = (None, tb)"
    and c: "unzip_onix_threaded env
              (get_files_matching env (files tb) (join download_dir [''ONIX'']) ''*.zip'')
              download_dir working_dir tb = (None, tc)"
    and d: "unzip_onix_threaded env
              (get_files_matching env (files tc) (join download_dir [''ONIX_BKLST'']) ''*.zip'')
              download_dir working_dir tc = (None, s2)"
    by blast
  from a have ta: "ta = sa" by (simp add: sa_def)
  from b have tb: "tb = sb" by (simp add: sb_def cover_zips_def ta)
  from c have tc: "tc = sc" by (simp add: sc_def onix_zips_def tb)
  note a' = a [unfolded ta]
  note b' = b [unfolded ta tb, folded cover_zips_def]
  note c' = c [unfolded tb tc, folded onix_zips_def]
  note d' = d [unfolded tc, folded bklst_zips_def]
  from download_data_files_downloaded [OF a'] c1 obtain cover_paths onix_paths bklst_paths ref_paths ea
    where l: "listings env (Some cs) = Inr (cover_paths, onix_paths, bklst_paths, ref_paths)"
    and ea: "trace sa = trace s1 @ ea" "downloaded ea = cover_paths @ onix_paths @ bklst_paths @ ref_paths"
    by auto
  from frame_download_data_files [of s1 "is_download_event (pool (glob s1))" env download_dir] a'
  have fa: "frame (is_download_event (pool (glob s1))) s1 sa" by simp
  then obtain ea' where ea': "trace sa = trace s1 @ ea'" "list_all (is_download_event (pool (glob s1))) ea'"
    by (rule frame_events)
  with ea(1) have eq: "ea' = ea" by simp
  from ea'(2) eq have xa: "extracted ea = []" using download_events_extracted [of _ ea] by simp
  from ea'(2) eq have ca: "Checkpoint \<notin> set ea" by (auto simp: list_all_iff)
  from unzip_covers_extracted [OF b'] obtain eb where
    eb: "trace sb = trace sa @ eb" "extracted eb = cover_zips" "downloaded eb = []" by blast
  from unzip_onix_extracted [OF c'] obtain ec where
    ec: "trace sc = trace sb @ ec" "extracted ec = onix_zips" "downloaded ec = []" by blast
  from unzip_onix_extracted [OF d'] obtain ed where
    ed: "trace s2 = trace sc @ ed" "extracted ed = bklst_zips" "downloaded ed = []" by blast
  have tr2: "trace s2 = trace s0 @ ea @ eb @ ec @ ed" using ea(1) eb(1) ec(1) ed(1) t1 by simp
  then have ne: "new_events s0 s2 = ea @ eb @ ec @ ed" by (simp add: new_events_def)
  from stages_frame [OF t1 h1 p] ne have cp: "Checkpoint \<notin> set (ea @ (eb @ ec @ ed))" by simp
  have "listings env (Some cs) = Inr (cover_paths, onix_paths, bklst_paths, ref_paths) \<and>
        trace sa = trace s0 @ ea \<and>
        trace s' = trace s0 @ ea @ (eb @ ec @ ed) @ [Checkpoint] \<and>
        downloaded ea = cover_paths @ onix_paths @ bklst_paths @ ref_paths \<and>
        extracted ea = [] \<and>
        downloaded (eb @ ec @ ed) = [] \<and>
        extracted (eb @ ec @ ed) = cover_zips @ onix_zips @ bklst_zips \<and>
        Checkpoint \<notin> set (ea @ (eb @ ec @ ed))"
    using l ea t1 t' tr2 xa eb(2,3) ec(2,3) ed(2,3) cp
    by (simp add: extracted_append downloaded_append)
  then have "\<exists>cover_paths onix_paths bklst_paths ref_paths ev_download ev_extract.
              listings env (Some cs) = Inr (cover_paths, onix_paths, bklst_paths, ref_paths) \<and>
              trace sa = trace s0 @ ev_download \<and>
              trace s' = trace s0 @ ev_download @ ev_extract @ [Checkpoint] \<and>
              downloaded ev_download = cover_paths @ onix_paths @ bklst_paths @ ref_paths \<and>
              extracted ev_download = [] \<and>
              downloaded ev_extract = [] \<and>
              extracted ev_extract = cover_zips @ onix_zips @ bklst_zips \<and>
              Checkpoint \<notin> set (ev_download @ ev_extract)"
    by (intro exI)
  then show ?thesis
    unfolding Let_def s1_def [symmetric] download_dir_def [symmetric] working_dir_def [symmetric]
      sa_def [symmetric] cover_zips_def [symmetric] sb_def [symmetric] onix_zips_def [symmetric]
      sc_def [symmetric] bklst_zips_def [symmetric] .
qed

lemma feed_env_simps:
  "processes feed_env = 2" "ftp_connect feed_env n = None"
  "get_local_path feed_env p d = d @ p" "expanduser feed_env p = p"
  "history_writable feed_env" "clock feed_env = 1000"
  "ftp_download_file feed_env n p = Inr (ZipArchive
         (if p = ''/Imageswk/c1.zip'' then [(''9780141439518.jpg'', ''JPEG'')]
          else if p = ''/ONIX/o1.zip'' then [(''a.xml'', ''A'')]
          else if p = ''/ONIX_BKLST/b1.zip'' then [(''b.xml'', ''B'')]
          else [(''ref.txt'', ''R'')]))"
  "listings feed_env cs = Inr ([''/Imageswk/c1.zip''], [''/ONIX/o1.zip''], [''/ONIX_BKLST/b1.zip''],
       [''/Reference/r1.zip''])"
  "get_files_matching feed_env fs root pat =
     filter (\<lambda>p. prefix (root @ ''/'') p \<and> suffix ''.zip'' p) (map fst fs)"
  by (simp_all add: feed_env_def ex_env_def processes_def listings_def)

lemma feed_config_get:
  "config_get feed_env ''host'' = Inr ''ftp.example.com''" "config_get feed_env ''user'' = Inr ''u''"
  "config_get feed_env ''passwd'' = Inr ''p''" "config_get feed_env ''download_dir'' = Inr ''/d''"
  "config_get feed_env ''working_dir'' = Inr ''/w''" "config_get feed_env ''cover_size'' = Inr ''j400w''"
  by (simp_all add: config_get_def feed_env_def ex_env_def ex_config_def)

lemma starmap_single:
  "0 < procs \<Longrightarrow> starmap procs f [x] s = (case f x s of (r, s') \<Rightarrow> (r, s'))"
proof -
  assume "0 < procs"
  then have c: "chunksize (Suc 0) procs = Suc 0" by (simp add: chunksize_def)
  have k: "chunked (Suc 0) [x] = [[x]]" by (simp add: chunked_step chunked_Nil)
  show ?thesis by (simp add: starmap_def c k for_each_Cons split: prod.splits option.splits)
qed

lemma feed_download_file:
  "download_file feed_env (p, ''/d'') s =
     (None,
      s\<lparr>next_session := Suc (next_session s),
        files := (''/d'' @ p, ZipArchive
             (if p = ''/Imageswk/c1.zip'' then [(''9780141439518.jpg'', ''JPEG'')]
              else if p = ''/ONIX/o1.zip'' then [(''a.xml'', ''A'')]
              else if p = ''/ONIX_BKLST/b1.zip'' then [(''b.xml'', ''B'')]
              else [(''ref.txt'', ''R'')])) # filter (\<lambda>e. fst e \<noteq> ''/d'' @ p) (files s),
        trace := trace s @ [DownloadTask p (pool (glob s)), SessionOpen (next_session s),
                            Retrieve (next_session s) p (''/d'' @ p), WriteFile (''/d'' @ p),
                            SessionClose (next_session s)]\<rparr>)"
  by (simp add: download_file_def with_session_def emit_def write_file_def Let_def feed_env_simps)

lemma feed_download:
  "download_data_files feed_env ''/d'' ex_configured = (None, feed_downloaded)"
proof -
  have n: "next_session ex_configured = 0" "trace ex_configured = []" "files ex_configured = []"
    "pool (glob ex_configured) = None"
    by (simp_all add: ex_configured_def empty_world_def)
  show ?thesis
    by (simp add: download_data_files_def Let_def feed_env_simps n emit_def download_batches_def
          starmap_single feed_download_file feed_downloaded_def)
qed

lemma rstrip_slash_prefix: "prefix (rstrip_slash s) s"
proof -
  have "rev (takeWhile (\<lambda>c. c = CHR ''/'') (rev s) @ dropWhile (\<lambda>c. c = CHR ''/'') (rev s)) = rev (rev s)"
    by (simp only: takeWhile_dropWhile_id)
  then have "rev (dropWhile (\<lambda>c. c = CHR ''/'') (rev s)) @ rev (takeWhile (\<lambda>c. c = CHR ''/'') (rev s)) = s"
    by (simp only: rev_append rev_rev_ident)
  then have "s = rstrip_slash s @ rev (takeWhile (\<lambda>c. c = CHR ''/'') (rev s))"
    by (simp only: rstrip_slash_def)
  then show ?thesis by (rule prefixI)
qed

lemma dirname_prefix: "prefix (dirname p) p"
proof -
  have 1: "prefix (take i p) p" for i by (rule take_is_prefix)
  have 2: "prefix (rstrip_slash (take i p)) p" for i
    using rstrip_slash_prefix [of "take i p"] 1 [of i] by (rule prefix_order.trans)
  show ?thesis by (simp add: dirname_def Let_def 1 2)
qed

lemma parents_prefix: "q \<in> set (parents p) \<Longrightarrow> prefix q p"
proof (induction p rule: parents.induct)
  case (1 p)
  show ?case
  proof (cases "dirname p = [] \<or> length p \<le> length (dirname p)")
    case True
    with 1(2) show ?thesis by (subst (asm) parents.simps) (simp add: Let_def)
  next
    case False
    with 1(2) have "q = dirname p \<or> q \<in> set (parents (dirname p))"
      by (subst (asm) parents.simps) (simp add: Let_def)
    then show ?thesis
    proof
      assume "q = dirname p"
      then show ?thesis by (simp add: dirname_prefix)
    next
      assume "q \<in> set (parents (dirname p))"
      with 1(1) [OF refl] False have "prefix q (dirname p)" by simp
      then show ?thesis using dirname_prefix [of p] by (rule prefix_order.trans)
    qed
  qed
qed

lemma makedirs_dirs: "dirs (snd (makedirs b d s)) \<subseteq> dirs s \<union> {q. prefix q d}"
  using parents_prefix [of _ d] by (auto simp: makedirs_def emit_def Let_def)

lemma precreate_dirs:
  "dirs (snd (for_each (makedirs b) ds s)) \<subseteq> dirs s \<union> {q. \<exists>d \<in> set ds. prefix q d}"
proof (induction ds arbitrary: s)
  case Nil
  show ?case by simp
next
  case (Cons d ds)
  obtain r s1 where m: "makedirs b d s = (r, s1)" by (cases "makedirs b d s")
  from makedirs_dirs [of b d s] m have 1: "dirs s1 \<subseteq> dirs s \<union> {q. prefix q d}" by simp
  show ?case
  proof (cases r)
    case (Some e)
    with m 1 show ?thesis by (auto simp: for_each_Cons)
  next
    case None
    from Cons.IH [of s1] 1
    have "dirs (snd (for_each (makedirs b) ds s1)) \<subseteq> dirs s \<union> {q. prefix q d} \<union> {q. \<exists>d \<in> set ds. prefix q d}"
      by blast
    with m None show ?thesis by (auto simp: for_each_Cons)
  qed
qed

lemma cover_entry_written:
  assumes "\<not> path_exists s (join target_dir [last4 (fst (splitext f)), f])"
      and "getinfo zf f = Some data" and "arcname f = f" and "f \<noteq> []"
  shows "\<exists>s'. extract_cover_entry zf target_dir f s = (None, s') \<and>
           files s' = (join target_dir [last4 (fst (splitext f)), f], Blob data) #
                      filter (\<lambda>e. fst e \<noteq> join target_dir [last4 (fst (splitext f)), f]) (files s)"
proof -
  from extract_member_clean [OF assms(3,4), of data "join2 target_dir (last4 (fst (splitext f)))" s]
  obtain s' where "extract_member f data (join2 target_dir (last4 (fst (splitext f)))) s = (None, s')"
    and "files s' = (join2 (join2 target_dir (last4 (fst (splitext f)))) f, Blob data) #
           filter (\<lambda>e. fst e \<noteq> join2 (join2 target_dir (last4 (fst (splitext f)))) f) (files s)"
    by blast
  with assms(1,2) show ?thesis
    by (simp add: extract_cover_entry_def Let_def zip_extract_def join_two join_one)
qed

lemma extract_zip_single:
  assumes "map_of (files s) z = Some (ZipArchive [(f, data)])" and "arcname f = f" and "f \<noteq> []"
  shows "\<exists>s'. extract_zip (z, td) s = (None, s') \<and>
           files s' = (join2 td f, Blob data) # filter (\<lambda>e. fst e \<noteq> join2 td f) (files s)"
proof -
  let ?s1 = "emit (ExtractTask z td) s"
  have f1: "files ?s1 = files s" by (simp add: emit_def)
  from extract_member_clean [OF assms(2,3), of data td ?s1]
  obtain s' where "extract_member f data td ?s1 = (None, s')"
    and "files s' = (join2 td f, Blob data) # filter (\<lambda>e. fst e \<noteq> join2 td f) (files ?s1)"
    by blast
  with assms(1) f1 show ?thesis
    by (simp add: extract_zip_def Let_def open_zip_def zip_extractall_def for_each_Cons)
qed

lemma feed_no_file_in_the_way:
  "list_all (\<lambda>d. map_of (files feed_downloaded) d = None) (shard_dirs ''/w'' ''j400w'')"
  by (simp add: ex_shard_dirs list_all_iff feed_downloaded_def)

lemma jpg_not_above_shard:
  "\<not> prefix ''/w/Imageswk/j400w/9518/9780141439518.jpg'' (''/w/Imageswk/j400w/'' @ fmt04 i)"
proof
  assume "prefix ''/w/Imageswk/j400w/9518/9780141439518.jpg'' (''/w/Imageswk/j400w/'' @ fmt04 i)"
  then have "prefix (''/w/Imageswk/j400w/'' @ ''9518/9780141439518.jpg'') (''/w/Imageswk/j400w/'' @ fmt04 i)"
    by simp
  then have "prefix ''9518/9780141439518.jpg'' (fmt04 i)" by (simp only: same_prefix_prefix)
  then have "set ''9518/9780141439518.jpg'' \<subseteq> set (fmt04 i)" by (rule set_mono_prefix)
  then have "CHR ''/'' \<in> set (fmt04 i)" by simp
  with fmt04_no_slash [of i] show False by simp
qed

lemma feed_key: "last4 (fst (splitext ''9780141439518.jpg'')) = ''9518''"
  by (simp add: stem_9780141439518 last4_def)

lemma feed_covers:
  "\<exists>sb. unzip_covers_threaded feed_env [''/d/Imageswk/c1.zip''] ''/w'' feed_downloaded = (None, sb) \<and>
        files sb = (''/w/Imageswk/j400w/9518/9780141439518.jpg'', Blob ''JPEG'') # files feed_downloaded"
proof -
  let ?jpg = "''/w/Imageswk/j400w/9518/9780141439518.jpg''"
  let ?zf = "[(''9780141439518.jpg'', ''JPEG'')]"
  from precreate_ok [OF feed_no_file_in_the_way] obtain sp where
    sp: "for_each (makedirs True) (shard_dirs ''/w'' ''j400w'') feed_downloaded = (None, sp)"
    "files sp = files feed_downloaded"
    by blast
  from precreate_dirs [of True "shard_dirs ''/w'' ''j400w''" feed_downloaded] sp(1)
  have "dirs sp \<subseteq> dirs feed_downloaded \<union> {q. \<exists>d \<in> set (shard_dirs ''/w'' ''j400w''). prefix q d}"
    by simp
  moreover have "dirs feed_downloaded = {}"
    by (simp add: feed_downloaded_def ex_configured_def empty_world_def)
  ultimately have nd: "?jpg \<notin> dirs sp"
    using jpg_not_above_shard by (auto simp: ex_shard_dirs)
  let ?se = "emit (ExtractTask ''/d/Imageswk/c1.zip'' ''/w/Imageswk/j400w'') sp"
  have fe: "files ?se = files feed_downloaded" "dirs ?se = dirs sp" by (simp_all add: emit_def sp(2))
  have td: "join ''/w'' [''Imageswk'', ''j400w''] = ''/w/Imageswk/j400w''"
    by (simp add: join_def join2_def)
  have jp: "join ''/w/Imageswk/j400w'' [last4 (fst (splitext ''9780141439518.jpg'')), ''9780141439518.jpg''] = ?jpg"
    by (simp add: feed_key join_def join2_def)
  have ne: "\<not> path_exists ?se
      (join ''/w/Imageswk/j400w'' [last4 (fst (splitext ''9780141439518.jpg'')), ''9780141439518.jpg''])"
    unfolding jp using nd by (simp add: path_exists_def fe feed_downloaded_def)
  have gi: "getinfo ?zf ''9780141439518.jpg'' = Some ''JPEG''" by (simp add: getinfo_def)
  have ar: "arcname ''9780141439518.jpg'' = ''9780141439518.jpg''" by (rule arcname_flat) simp_all
  from cover_entry_written [OF ne gi ar] obtain sb where
    sb: "extract_cover_entry ?zf ''/w/Imageswk/j400w'' ''9780141439518.jpg'' ?se = (None, sb)"
    "files sb = (?jpg, Blob ''JPEG'') # filter (\<lambda>e. fst e \<noteq> ?jpg) (files ?se)"
    unfolding jp by auto
  have oz: "open_zip ?se ''/d/Imageswk/c1.zip'' = Inr ?zf"
    by (simp add: open_zip_def fe feed_downloaded_def)
  have c: "cover_size (glob feed_downloaded) = Some ''j400w''"
    by (simp add: feed_downloaded_def ex_configured_def)
  have "unzip_covers_threaded feed_env [''/d/Imageswk/c1.zip''] ''/w'' feed_downloaded = (None, sb)"
    by (simp add: unzip_covers_threaded_def c sp(1) td starmap_single feed_env_simps(1)
          extract_cover_zip_def Let_def oz namelist_def for_each_Cons sb(1))
  moreover have "files sb = (?jpg, Blob ''JPEG'') # files feed_downloaded"
    by (simp add: sb(2) fe feed_downloaded_def)
  ultimately show ?thesis by (intro exI [of _ sb] conjI)
qed

lemma feed_onix_dirs:
  "onix_extract_dir ''/d'' ''/w'' ''/d/ONIX/o1.zip'' = ''/w/ONIX''"
  "onix_extract_dir ''/d'' ''/w'' ''/d/ONIX_BKLST/b1.zip'' = ''/w/ONIX_BKLST''"
  by (simp_all add: onix_extract_dir_def dirname_def rfind_def Let_def rstrip_slash_def
        remove_all.simps lstrip_slash_def join_def join2_def)

lemma feed_arc: "arcname ''a.xml'' = ''a.xml''" "arcname ''b.xml'' = ''b.xml''"
  by (rule arcname_flat; simp)+

lemma feed_onix:
  assumes "files sb = (''/w/Imageswk/j400w/9518/9780141439518.jpg'', Blob ''JPEG'') # files feed_downloaded"
  shows "\<exists>sc. unzip_onix_threaded feed_env [''/d/ONIX/o1.zip''] ''/d'' ''/w'' sb = (None, sc) \<and>
          files sc = (''/w/ONIX/a.xml'', Blob ''A'') # files sb"
proof -
  have m: "map_of (files sb) ''/d/ONIX/o1.zip'' = Some (ZipArchive [(''a.xml'', ''A'')])"
    by (simp add: assms feed_downloaded_def)
  from extract_zip_single [OF m feed_arc(1), of "''/w/ONIX''"] obtain sc where
    sc: "extract_zip (''/d/ONIX/o1.zip'', ''/w/ONIX'') sb = (None, sc)"
    "files sc = (join2 ''/w/ONIX'' ''a.xml'', Blob ''A'') #
       filter (\<lambda>e. fst e \<noteq> join2 ''/w/ONIX'' ''a.xml'') (files sb)"
    by auto
  have "unzip_onix_threaded feed_env [''/d/ONIX/o1.zip''] ''/d'' ''/w'' sb = (None, sc)"
    by (simp add: unzip_onix_threaded_def feed_onix_dirs starmap_single feed_env_simps(1) sc(1))
  moreover have "files sc = (''/w/ONIX/a.xml'', Blob ''A'') # files sb"
    by (simp add: sc(2) join2_def assms feed_downloaded_def)
  ultimately show ?thesis by (intro exI [of _ sc] conjI)
qed

lemma feed_bklst:
  assumes "files sb = (''/w/Imageswk/j400w/9518/9780141439518.jpg'', Blob ''JPEG'') # files feed_downloaded"
      and "files sc = (''/w/ONIX/a.xml'', Blob ''A'') # files sb"
  shows "\<exists>s2. unzip_onix_threaded feed_env [''/d/ONIX_BKLST/b1.zip''] ''/d'' ''/w'' sc = (None, s2) \<and>
          files s2 = (''/w/ONIX_BKLST/b.xml'', Blob ''B'') # files sc"
proof -
  have m: "map_of (files sc) ''/d/ONIX_BKLST/b1.zip'' = Some (ZipArchive [(''b.xml'', ''B'')])"
    by (simp add: assms feed_downloaded_def)
  from extract_zip_single [OF m feed_arc(2), of "''/w/ONIX_BKLST''"] obtain s2 where
    s2: "extract_zip (''/d/ONIX_BKLST/b1.zip'', ''/w/ONIX_BKLST'') sc = (None, s2)"
    "files s2 = (join2 ''/w/ONIX_BKLST'' ''b.xml'', Blob ''B'') #
       filter (\<lambda>e. fst e \<noteq> join2 ''/w/ONIX_BKLST'' ''b.xml'') (files sc)"
    by auto
  have "unzip_onix_threaded feed_env [''/d/ONIX_BKLST/b1.zip''] ''/d'' ''/w'' sc = (None, s2)"
    by (simp add: unzip_onix_threaded_def feed_onix_dirs starmap_single feed_env_simps(1) s2(1))
  moreover have "files s2 = (''/w/ONIX_BKLST/b.xml'', Blob ''B'') # files sc"
    by (simp add: s2(2) join2_def assms feed_downloaded_def)
  ultimately show ?thesis by (intro exI [of _ s2] conjI)
qed

lemma feed_found:
  "get_files_matching feed_env (files feed_downloaded) (join ''/d'' [''Imageswk'']) ''*.zip'' =
     [''/d/Imageswk/c1.zip'']"
  "files sb = (''/w/Imageswk/j400w/9518/9780141439518.jpg'', Blob ''JPEG'') # files feed_downloaded \<Longrightarrow>
   get_files_matching feed_env (files sb) (join ''/d'' [''ONIX'']) ''*.zip'' = [''/d/ONIX/o1.zip'']"
  "files sb = (''/w/Imageswk/j400w/9518/9780141439518.jpg'', Blob ''JPEG'') # files feed_downloaded \<Longrightarrow>
   files sc = (''/w/ONIX/a.xml'', Blob ''A'') # files sb \<Longrightarrow>
   get_files_matching feed_env (files sc) (join ''/d'' [''ONIX_BKLST'']) ''*.zip'' =
     [''/d/ONIX_BKLST/b1.zip'']"
  by (simp_all add: feed_env_simps(9) feed_downloaded_def join_def join2_def suffix_to_prefix)

lemma feed_main:
  "\<exists>sb sc s2.
     unzip_covers_threaded feed_env [''/d/Imageswk/c1.zip''] ''/w'' feed_downloaded = (None, sb) \<and>
     unzip_onix_threaded feed_env [''/d/ONIX/o1.zip''] ''/d'' ''/w'' sb = (None, sc) \<and>
     get_files_matching feed_env (files sb) (join ''/d'' [''ONIX'']) ''*.zip'' = [''/d/ONIX/o1.zip''] \<and>
     get_files_matching feed_env (files sc) (join ''/d'' [''ONIX_BKLST'']) ''*.zip'' =
       [''/d/ONIX_BKLST/b1.zip''] \<and>
     files s2 = [(''/w/ONIX_BKLST/b.xml'', Blob ''B''), (''/w/ONIX/a.xml'', Blob ''A''),
                 (''/w/Imageswk/j400w/9518/9780141439518.jpg'', Blob ''JPEG'')] @ files feed_downloaded \<and>
     main feed_env empty_world = (None, (emit Checkpoint s2)\<lparr>history := Some 1000\<rparr>)"
proof -
  from feed_covers obtain sb where
    sb: "unzip_covers_threaded feed_env [''/d/Imageswk/c1.zip''] ''/w'' feed_downloaded = (None, sb)"
    "files sb = (''/w/Imageswk/j400w/9518/9780141439518.jpg'', Blob ''JPEG'') # files feed_downloaded"
    by blast
  from feed_onix [OF sb(2)] obtain sc where
    sc: "unzip_onix_threaded feed_env [''/d/ONIX/o1.zip''] ''/d'' ''/w'' sb = (None, sc)"
    "files sc = (''/w/ONIX/a.xml'', Blob ''A'') # files sb"
    by blast
  from feed_bklst [OF sb(2) sc(2)] obtain s2 where
    s2: "unzip_onix_threaded feed_env [''/d/ONIX_BKLST/b1.zip''] ''/d'' ''/w'' sc = (None, s2)"
    "files s2 = (''/w/ONIX_BKLST/b.xml'', Blob ''B'') # files sc"
    by blast
  note found = feed_found(1) feed_found(2) [OF sb(2)] feed_found(3) [OF sb(2) sc(2)]
  have c: "empty_world\<lparr>glob := (glob empty_world)\<lparr>host := Some ''ftp.example.com'', user := Some ''u'',
             passwd := Some ''p'', cover_size := Some ''j400w''\<rparr>\<rparr> = ex_configured"
    by (simp add: ex_configured_def empty_world_def module_globals_def)
  have sv: "save_run_history feed_env s2 = (None, (emit Checkpoint s2)\<lparr>history := Some 1000\<rparr>)"
    by (simp add: save_run_history_def Let_def feed_env_simps)
  have "main feed_env empty_world =
      seq (pipeline feed_env ''/d'' ''/w'' @ [save_run_history feed_env]) ex_configured"
    using main_run [OF feed_config_get, of empty_world] by (simp only: c feed_env_simps(4))
  then have "main feed_env empty_world = (None, (emit Checkpoint s2)\<lparr>history := Some 1000\<rparr>)"
    by (simp add: pipeline_def feed_download found sb(1) sc(1) s2(1) sv)
  moreover have "files s2 = [(''/w/ONIX_BKLST/b.xml'', Blob ''B''), (''/w/ONIX/a.xml'', Blob ''A''),
                 (''/w/Imageswk/j400w/9518/9780141439518.jpg'', Blob ''JPEG'')] @ files feed_downloaded"
    by (simp add: s2(2) sc(2) sb(2))
  ultimately show ?thesis using sb(1) sc(1) found(2,3) by (intro exI [of _ sb] exI [of _ sc] exI [of _ s2] conjI)
qed

text \<open>
  On a server with one archive in each category the run succeeds: the four archives are
  downloaded, the cover, ONIX and backlist archives are extracted and their members are
  in the working directory, and the reference archive is still an archive in the
  download directory with no \<open>ref.txt\<close> anywhere.
\<close>

theorem three_categories_extracted_witness:
  "(config_get feed_env ''host'' = Inr ''ftp.example.com'' \<and> config_get feed_env ''user'' = Inr ''u'' \<and>
    config_get feed_env ''passwd'' = Inr ''p'' \<and> config_get feed_env ''download_dir'' = Inr ''/d'' \<and>
    config_get feed_env ''working_dir'' = Inr ''/w'' \<and> config_get feed_env ''cover_size'' = Inr ''j400w'' \<and>
    main feed_env empty_world = (None, snd (main feed_env empty_world))) \<and>
   listings feed_env (Some ''j400w'') =
     Inr ([''/Imageswk/c1.zip''], [''/ONIX/o1.zip''], [''/ONIX_BKLST/b1.zip''], [''/Reference/r1.zip'']) \<and>
   (\<exists>ev_download ev_extract.
      trace (snd (main feed_env empty_world)) = ev_download @ ev_extract @ [Checkpoint] \<and>
      downloaded ev_download =
        [''/Imageswk/c1.zip'', ''/ONIX/o1.zip'', ''/ONIX_BKLST/b1.zip'', ''/Reference/r1.zip''] \<and>
      extracted ev_download = [] \<and>
      downloaded ev_extract = [] \<and>
      extracted ev_extract = [''/d/Imageswk/c1.zip'', ''/d/ONIX/o1.zip'', ''/d/ONIX_BKLST/b1.zip''] \<and>
      Checkpoint \<notin> set (ev_download @ ev_extract)) \<and>
   map_of (files (snd (main feed_env empty_world))) ''/w/Imageswk/j400w/9518/9780141439518.jpg'' =
     Some (Blob ''JPEG'') \<and>
   map_of (files (snd (main feed_env empty_world))) ''/w/ONIX/a.xml'' = Some (Blob ''A'') \<and>
   map_of (files (snd (main feed_env empty_world))) ''/w/ONIX_BKLST/b.xml'' = Some (Blob ''B'') \<and>
   map_of (files (snd (main feed_env empty_world))) ''/d/Reference/r1.zip'' =
     Some (ZipArchive [(''ref.txt'', ''R'')]) \<and>
   ''ref.txt'' \<notin> set (map (last \<circ> split_on CHR ''/'' \<circ> fst) (files (snd (main feed_env empty_world))))"
proof -
  from feed_main obtain sb sc s2 where
    sb: "unzip_covers_threaded feed_env [''/d/Imageswk/c1.zip''] ''/w'' feed_downloaded = (None, sb)"
    and sc: "unzip_onix_threaded feed_env [''/d/ONIX/o1.zip''] ''/d'' ''/w'' sb = (None, sc)"
    and oz: "get_files_matching feed_env (files sb) (join ''/d'' [''ONIX'']) ''*.zip'' = [''/d/ONIX/o1.zip'']"
    and bz: "get_files_matching feed_env (files sc) (join ''/d'' [''ONIX_BKLST'']) ''*.zip'' =
       [''/d/ONIX_BKLST/b1.zip'']"
    and f2: "files s2 = [(''/w/ONIX_BKLST/b.xml'', Blob ''B''), (''/w/ONIX/a.xml'', Blob ''A''),
                 (''/w/Imageswk/j400w/9518/9780141439518.jpg'', Blob ''JPEG'')] @ files feed_downloaded"
    and m: "main feed_env empty_world = (None, (emit Checkpoint s2)\<lparr>history := Some 1000\<rparr>)"
    by blast
  have run: "main feed_env empty_world = (None, snd (main feed_env empty_world))" by (simp add: m)
  have c: "empty_world\<lparr>glob := (glob empty_world)\<lparr>host := Some ''ftp.example.com'', user := Some ''u'',
             passwd := Some ''p'', cover_size := Some ''j400w''\<rparr>\<rparr> = ex_configured"
    by (simp add: ex_configured_def empty_world_def module_globals_def)
  have l: "listings feed_env (Some ''j400w'') =
     Inr ([''/Imageswk/c1.zip''], [''/ONIX/o1.zip''], [''/ONIX_BKLST/b1.zip''], [''/Reference/r1.zip''])"
    by (rule feed_env_simps(8))
  note T = three_categories_extracted [OF feed_config_get run,
      unfolded Let_def c feed_env_simps(4) feed_download snd_conv feed_found(1) sb oz sc bz l]
  from T obtain ev_download ev_extract where
    t: "trace (snd (main feed_env empty_world)) = trace empty_world @ ev_download @ ev_extract @ [Checkpoint]"
    and d: "downloaded ev_download =
        [''/Imageswk/c1.zip''] @ [''/ONIX/o1.zip''] @ [''/ONIX_BKLST/b1.zip''] @ [''/Reference/r1.zip'']"
    "extracted ev_download = []" "downloaded ev_extract = []"
    "extracted ev_extract = [''/d/Imageswk/c1.zip''] @ [''/d/ONIX/o1.zip''] @ [''/d/ONIX_BKLST/b1.zip'']"
    "Checkpoint \<notin> set (ev_download @ ev_extract)"
    by auto
  have ev: "\<exists>ev_download ev_extract.
      trace (snd (main feed_env empty_world)) = ev_download @ ev_extract @ [Checkpoint] \<and>
      downloaded ev_download =
        [''/Imageswk/c1.zip'', ''/ONIX/o1.zip'', ''/ONIX_BKLST/b1.zip'', ''/Reference/r1.zip''] \<and>
      extracted ev_download = [] \<and>
      downloaded ev_extract = [] \<and>
      extracted ev_extract = [''/d/Imageswk/c1.zip'', ''/d/ONIX/o1.zip'', ''/d/ONIX_BKLST/b1.zip''] \<and>
      Checkpoint \<notin> set (ev_download @ ev_extract)"
    using t d by (intro exI [of _ ev_download] exI [of _ ev_extract]) (simp add: empty_world_def)
  have fs: "files (snd (main feed_env empty_world)) =
      [(''/w/ONIX_BKLST/b.xml'', Blob ''B''), (''/w/ONIX/a.xml'', Blob ''A''),
       (''/w/Imageswk/j400w/9518/9780141439518.jpg'', Blob ''JPEG''),
       (''/d/Reference/r1.zip'', ZipArchive [(''ref.txt'', ''R'')]),
       (''/d/ONIX_BKLST/b1.zip'', ZipArchive [(''b.xml'', ''B'')]),
       (''/d/ONIX/o1.zip'', ZipArchive [(''a.xml'', ''A'')]),
       (''/d/Imageswk/c1.zip'', ZipArchive [(''9780141439518.jpg'', ''JPEG'')])]"
    by (simp add: m emit_def f2 feed_downloaded_def)
  have cfg: "config_get feed_env ''host'' = Inr ''ftp.example.com'' \<and> config_get feed_env ''user'' = Inr ''u'' \<and>
    config_get feed_env ''passwd'' = Inr ''p'' \<and> config_get feed_env ''download_dir'' = Inr ''/d'' \<and>
    config_get feed_env ''working_dir'' = Inr ''/w'' \<and> config_get feed_env ''cover_size'' = Inr ''j400w''"
    using feed_config_get by simp
  have files_ok:
    "map_of (files (snd (main feed_env empty_world))) ''/w/Imageswk/j400w/9518/9780141439518.jpg'' =
       Some (Blob ''JPEG'') \<and>
     map_of (files (snd (main feed_env empty_world))) ''/w/ONIX/a.xml'' = Some (Blob ''A'') \<and>
     map_of (files (snd (main feed_env empty_world))) ''/w/ONIX_BKLST/b.xml'' = Some (Blob ''B'') \<and>
     map_of (files (snd (main feed_env empty_world))) ''/d/Reference/r1.zip'' =
       Some (ZipArchive [(''ref.txt'', ''R'')]) \<and>
     ''ref.txt'' \<notin> set (map (last \<circ> split_on CHR ''/'' \<circ> fst) (files (snd (main feed_env empty_world))))"
    unfolding fs by simp
  from cfg run l ev files_ok show ?thesis by (intro conjI) (elim conjE, assumption)+
qed

section \<open>The shard directories are made before the pool starts\<close>

lemma precreate_done:
  "for_each (makedirs True) ds s = (None, s1) \<Longrightarrow>
   trace s1 = trace s @ map MakeDirs ds \<and> set ds \<subseteq> dirs s1 \<and> dirs s \<subseteq> dirs s1 \<and> files s1 = files s"
proof (induction ds arbitrary: s)
  case Nil
  then show ?case by simp
next
  case (Cons d ds)
  obtain r sa where a: "makedirs True d s = (r, sa)" by (cases "makedirs True d s")
  with Cons.prems have r: "r = None" and rest: "for_each (makedirs True) ds sa = (None, s1)"
    by (auto simp: for_each_Cons split: option.splits)
  from a r have sa: "trace sa = trace s @ [MakeDirs d]" "d \<in> dirs sa" "dirs s \<subseteq> dirs sa" "files sa = files s"
    by (auto simp: makedirs_def emit_def Let_def split: if_splits)
  from Cons.IH [OF rest] sa show ?case by auto
qed

lemma precreate_events:
  "\<exists>n. trace (snd (for_each (makedirs True) ds s)) = trace s @ map MakeDirs (take n ds)"
proof (induction ds arbitrary: s)
  case Nil
  then show ?case by simp
next
  case (Cons d ds)
  obtain r sa where a: "makedirs True d s = (r, sa)" by (cases "makedirs True d s")
  then have sa: "trace sa = trace s @ [MakeDirs d]"
    by (auto simp: makedirs_def emit_def Let_def split: if_splits)
  show ?case
  proof (cases r)
    case (Some e)
    with a sa have "trace (snd (for_each (makedirs True) (d # ds) s)) = trace s @ map MakeDirs (take 1 (d # ds))"
      by (simp add: for_each_Cons)
    then show ?thesis by (rule exI)
  next
    case None
    from Cons.IH [of sa] obtain n where
      "trace (snd (for_each (makedirs True) ds sa)) = trace sa @ map MakeDirs (take n ds)" by blast
    with a sa None
    have "trace (snd (for_each (makedirs True) (d # ds) s)) = trace s @ map MakeDirs (take (Suc n) (d # ds))"
      by (simp add: for_each_Cons)
    then show ?thesis by (rule exI)
  qed
qed

lemma wframe_extract_member:
  assumes "D \<subseteq> dirs s"
  shows "frame (worker_event D) s (snd (extract_member name data td s))"
proof -
  let ?P = "worker_event D"
  let ?tp = "join2 td (arcname name)"
  let ?f1 = "\<lambda>s. if dirname ?tp \<noteq> [] \<and> \<not> path_exists s (dirname ?tp)
                 then makedirs False (dirname ?tp) s else (None, s)"
  let ?f2 = "\<lambda>s. if name \<noteq> [] \<and> last name = CHR ''/''
                 then (if ?tp \<in> dirs s then (None, s)
                       else (None, (emit (MakeDirs ?tp) s)\<lparr>dirs := insert ?tp (dirs s)\<rparr>))
                 else (None, write_file ?tp (Blob data) s)"
  have 1: "frame ?P t (snd (?f1 t))" if "D \<subseteq> dirs t" for t
  proof (cases "dirname ?tp \<noteq> [] \<and> \<not> path_exists t (dirname ?tp)")
    case True
    with that have "dirname ?tp \<notin> D" by (auto simp: path_exists_def)
    then have "?P (MakeDirs (dirname ?tp))" by simp
    then have "frame ?P t (snd (makedirs False (dirname ?tp) t))" by (rule frame_makedirs)
    with True show ?thesis by simp
  next
    case False
    then show ?thesis by (auto simp: frame_refl)
  qed
  have 2: "frame ?P t (snd (?f2 t))" if "D \<subseteq> dirs t" for t
  proof (cases "name \<noteq> [] \<and> last name = CHR ''/''")
    case False
    then show ?thesis by (auto simp: frame_write_file)
  next
    case True
    show ?thesis
    proof (cases "?tp \<in> dirs t")
      case True
      with \<open>name \<noteq> [] \<and> last name = CHR ''/''\<close> show ?thesis by (simp add: frame_refl)
    next
      case False
      with that have "?tp \<notin> D" by auto
      then have "frame ?P t ((emit (MakeDirs ?tp) t)\<lparr>dirs := insert ?tp (dirs t)\<rparr>)"
        by (auto simp: frame_def emit_def)
      with True False show ?thesis by simp
    qed
  qed
  have "D \<subseteq> dirs (snd (seq [?f1, ?f2] s)) \<and> frame ?P s (snd (seq [?f1, ?f2] s))"
  proof (rule seq_lift [where R = "frame ?P" and I = "\<lambda>t. D \<subseteq> dirs t"])
    show "frame ?P s s" for s by (rule frame_refl)
    show "frame ?P a c" if "frame ?P a b" "frame ?P b c" for a b c using that by (rule frame_trans)
    show "D \<subseteq> dirs (snd (f t)) \<and> frame ?P t (snd (f t))" if "f \<in> set [?f1, ?f2]" and i: "D \<subseteq> dirs t" for f t
    proof -
      from that(1) consider "f = ?f1" | "f = ?f2" by auto
      then have "frame ?P t (snd (f t))"
      proof cases
        case 1
        then show ?thesis using \<open>\<And>t. D \<subseteq> dirs t \<Longrightarrow> frame ?P t (snd (?f1 t))\<close> [OF i] by simp
      next
        case 2
        then show ?thesis using \<open>\<And>t. D \<subseteq> dirs t \<Longrightarrow> frame ?P t (snd (?f2 t))\<close> [OF i] by simp
      qed
      with i show ?thesis by (auto simp: frame_def)
    qed
    show "D \<subseteq> dirs s" by (rule assms)
  qed
  then show ?thesis by (simp add: extract_member_def Let_def frame_refl)
qed

lemma dframe_for_each:
  assumes step: "\<And>x t. x \<in> set xs \<Longrightarrow> D \<subseteq> dirs t \<Longrightarrow> frame P t (snd (f x t))"
      and init: "D \<subseteq> dirs s"
  shows "frame P s (snd (for_each f xs s))"
proof -
  have "D \<subseteq> dirs (snd (for_each f xs s)) \<and> frame P s (snd (for_each f xs s))"
  proof (rule for_each_lift [where R = "frame P" and I = "\<lambda>t. D \<subseteq> dirs t"])
    show "frame P s s" for s by (rule frame_refl)
    show "frame P a c" if "frame P a b" "frame P b c" for a b c using that by (rule frame_trans)
    show "D \<subseteq> dirs (snd (f x t)) \<and> frame P t (snd (f x t))" if "x \<in> set xs" and i: "D \<subseteq> dirs t" for x t
    proof -
      from that have "frame P t (snd (f x t))" by (rule step)
      with i show ?thesis by (auto simp: frame_def)
    qed
    show "D \<subseteq> dirs s" by (rule init)
  qed
  then show ?thesis by simp
qed

lemma dframe_starmap:
  assumes step: "\<And>x t. x \<in> set xs \<Longrightarrow> D \<subseteq> dirs t \<Longrightarrow> frame P t (snd (f x t))"
      and init: "D \<subseteq> dirs s"
  shows "frame P s (snd (starmap procs f xs s))"
proof -
  have "D \<subseteq> dirs (snd (starmap procs f xs s)) \<and> frame P s (snd (starmap procs f xs s))"
  proof (rule starmap_lift [where R = "frame P" and I = "\<lambda>t. D \<subseteq> dirs t"])
    show "frame P s s" for s by (rule frame_refl)
    show "frame P a c" if "frame P a b" "frame P b c" for a b c using that by (rule frame_trans)
    show "D \<subseteq> dirs (snd (f x t)) \<and> frame P t (snd (f x t))" if "x \<in> set xs" and i: "D \<subseteq> dirs t" for x t
    proof -
      from that have "frame P t (snd (f x t))" by (rule step)
      with i show ?thesis by (auto simp: frame_def)
    qed
    show "D \<subseteq> dirs s" by (rule init)
  qed
  then show ?thesis by simp
qed

lemma wframe_extract_cover_entry:
  assumes "D \<subseteq> dirs s"
  shows "frame (worker_event D) s (snd (extract_cover_entry zf td f s))"
  using wframe_extract_member [OF assms]
  by (simp add: extract_cover_entry_def zip_extract_def Let_def frame_refl split: option.splits)

lemma wframe_extract_cover_zip:
  assumes "D \<subseteq> dirs s"
  shows "frame (worker_event D) s (snd (extract_cover_zip a s))"
proof -
  obtain zfile td where a: "a = (zfile, td)" by (cases a)
  let ?s1 = "emit (ExtractTask zfile td) s"
  have 1: "frame (worker_event D) s ?s1" by (rule frame_emit) simp
  have d1: "D \<subseteq> dirs ?s1" using assms by (simp add: emit_def)
  have 2: "frame (worker_event D) ?s1 (snd (for_each (extract_cover_entry zf td) ns ?s1))" for zf ns
    by (rule dframe_for_each [where D = D]) (simp_all add: wframe_extract_cover_entry d1)
  show ?thesis using 1 frame_trans [OF 1 2]
    by (simp add: a extract_cover_zip_def Let_def split: sum.splits)
qed

lemma wframe_cover_workers:
  assumes "D \<subseteq> dirs s"
  shows "frame (worker_event D) s (snd (starmap procs extract_cover_zip xs s))"
  by (rule dframe_starmap [where D = D]) (simp_all add: wframe_extract_cover_zip assms)

lemma rfind_last_sep: "c \<notin> set f \<Longrightarrow> rfind c (a @ c # f) = int (length a)"
proof -
  assume c: "c \<notin> set f"
  have "takeWhile (\<lambda>x. x \<noteq> c) (rev f @ c # rev a) = rev f"
    using c by (subst takeWhile_append2) auto
  then show ?thesis by (simp add: rfind_def)
qed

lemma rstrip_slash_tail: "a \<noteq> [] \<Longrightarrow> last a \<noteq> CHR ''/'' \<Longrightarrow> rstrip_slash (a @ ''/'') = a"
proof -
  assume a: "a \<noteq> []" "last a \<noteq> CHR ''/''"
  then have "hd (rev a) \<noteq> CHR ''/''" and "rev a \<noteq> []" by (simp_all add: hd_rev)
  then have "dropWhile (\<lambda>c. c = CHR ''/'') (rev a) = rev a" by (cases "rev a") simp_all
  then show ?thesis by (simp add: rstrip_slash_def)
qed

lemma dirname_join:
  assumes "a \<noteq> []" and "last a \<noteq> CHR ''/''" and "CHR ''/'' \<notin> set f"
  shows "dirname (a @ ''/'' @ f) = a"
proof -
  have r: "rfind CHR ''/'' (a @ CHR ''/'' # f) = int (length a)" using assms(3) by (rule rfind_last_sep)
  have h: "take (Suc (length a)) (a @ CHR ''/'' # f) = a @ ''/''" by simp
  have n: "a @ ''/'' \<noteq> replicate (length (a @ ''/'')) CHR ''/''"
  proof
    assume "a @ ''/'' = replicate (length (a @ ''/'')) CHR ''/''"
    moreover have "set (replicate (length (a @ ''/'')) CHR ''/'') \<subseteq> {CHR ''/''}" by auto
    ultimately have "set (a @ ''/'') \<subseteq> {CHR ''/''}" by simp
    moreover from assms(1) have "last a \<in> set a" by simp
    ultimately have "last a = CHR ''/''" by auto
    with assms(2) show False by simp
  qed
  have "nat (int (length a) + 1) = Suc (length a)" by simp
  then show ?thesis
    using n rstrip_slash_tail [OF assms(1,2)] by (simp add: dirname_def r h Let_def del: replicate_Suc)
qed

lemma bucket_name_length: "bucket_name f \<Longrightarrow> 4 \<le> length f"
proof -
  assume "bucket_name f"
  then obtain i where i: "last4 (fst (splitext f)) = fmt04 i" by (auto simp: bucket_name_def)
  obtain n where n: "fst (splitext f) = take n f" using splitext_stem_take by blast
  have "length (last4 (fst (splitext f))) \<le> length f" by (simp add: last4_def n)
  with i fmt04_length [of i] show ?thesis by simp
qed

lemma bucket_name_clean: "bucket_name f \<Longrightarrow> arcname f = f"
proof -
  assume b: "bucket_name f"
  from bucket_name_length [OF b] have "f \<noteq> ''.''" "f \<noteq> ''..''" by auto
  with b show ?thesis by (intro arcname_flat) (simp_all add: bucket_name_def)
qed

lemma bucket_dir:
  assumes "bucket_name f"
  shows "join (join wd [''Imageswk'', cs]) [last4 (fst (splitext f))] \<in> set (shard_dirs wd cs)"
    and "join (join wd [''Imageswk'', cs]) [last4 (fst (splitext f))] \<noteq> []"
    and "last (join (join wd [''Imageswk'', cs]) [last4 (fst (splitext f))]) \<noteq> CHR ''/''"
proof -
  let ?td = "join wd [''Imageswk'', cs]"
  from assms obtain i where i: "i < 10000" "last4 (fst (splitext f)) = fmt04 i"
    by (auto simp: bucket_name_def)
  have "join ?td [fmt04 i] = join wd [''Imageswk'', cs, fmt04 i]" by (simp add: join_def)
  with i show "join ?td [last4 (fst (splitext f))] \<in> set (shard_dirs wd cs)"
    by (auto simp: shard_dirs_def)
  have k: "fmt04 i \<noteq> []" "hd (fmt04 i) \<noteq> CHR ''/''" "last (fmt04 i) \<noteq> CHR ''/''"
    using no_sep_ends [of "fmt04 i" "CHR ''/''"] fmt04_nonempty [of i] fmt04_no_slash [of i] by simp_all
  then show "join ?td [last4 (fst (splitext f))] \<noteq> []"
    and "last (join ?td [last4 (fst (splitext f))]) \<noteq> CHR ''/''"
    by (simp_all add: i join_one join2_def)
qed

lemma extract_member_bucket:
  assumes b: "bucket_name f" and d: "set (shard_dirs wd cs) \<subseteq> dirs s"
  shows "extract_member f data (join (join wd [''Imageswk'', cs]) [last4 (fst (splitext f))]) s =
           (None, write_file (join (join wd [''Imageswk'', cs]) [last4 (fst (splitext f)), f]) (Blob data) s)"
proof -
  let ?a = "join (join wd [''Imageswk'', cs]) [last4 (fst (splitext f))]"
  from b have f: "f \<noteq> []" "CHR ''/'' \<notin> set f" by (simp_all add: bucket_name_def)
  then have hf: "hd f \<noteq> CHR ''/''" "last f \<noteq> CHR ''/''" using no_sep_ends [of f "CHR ''/''"] by simp_all
  note a = bucket_dir [OF b, of wd cs]
  have j: "join2 ?a f = ?a @ ''/'' @ f" using f(1) hf(1) a(2,3) by (rule join2_rel)
  have dn: "dirname (join2 ?a f) = ?a" unfolding j using a(2,3) f(2) by (rule dirname_join)
  have pe: "path_exists s ?a" using a(1) d by (auto simp: path_exists_def)
  have j2: "join (join wd [''Imageswk'', cs]) [last4 (fst (splitext f)), f] = join2 ?a f"
    by (simp add: join_def)
  show ?thesis
    using f(1) hf(2) pe by (simp add: extract_member_def bucket_name_clean [OF b] Let_def dn j2)
qed

lemma map_of_filter_other:
  "z \<noteq> p \<Longrightarrow> map_of (filter (\<lambda>e. fst e \<noteq> p) fs) z = map_of fs z"
  by (induction fs) auto

lemma archives_bucketed_write:
  assumes "archives_bucketed zips fs"
  shows "archives_bucketed zips ((p, Blob d) # filter (\<lambda>e. fst e \<noteq> p) fs)"
proof -
  have "(case map_of ((p, Blob d) # filter (\<lambda>e. fst e \<noteq> p) fs) z of
           None \<Rightarrow> True | Some (Blob b) \<Rightarrow> True
         | Some (ZipArchive zf) \<Rightarrow> list_all bucket_name (namelist zf))"
    if "z \<in> set zips" for z
  proof (cases "z = p")
    case True
    then show ?thesis by simp
  next
    case False
    from assms that have "(case map_of fs z of
           None \<Rightarrow> True | Some (Blob b) \<Rightarrow> True
         | Some (ZipArchive zf) \<Rightarrow> list_all bucket_name (namelist zf))"
      by (simp add: archives_bucketed_def list_all_iff)
    with False show ?thesis by (simp add: map_of_filter_other)
  qed
  then show ?thesis by (simp add: archives_bucketed_def list_all_iff)
qed

lemma covers_ready_write:
  "covers_ready wd cs zips t \<Longrightarrow> covers_ready wd cs zips (write_file p (Blob d) t)"
  by (simp add: covers_ready_def write_file_def emit_def archives_bucketed_write)

lemma open_zip_bucketed:
  assumes a: "archives_bucketed zips (files t)" and z: "z \<in> set zips" and o: "open_zip t z = Inr zf"
  shows "list_all bucket_name (namelist zf)"
proof -
  from o have "map_of (files t) z = Some (ZipArchive zf)"
    by (auto simp: open_zip_def split: option.splits content.splits)
  with a z show ?thesis by (auto simp: archives_bucketed_def list_all_iff)
qed

lemma ready_extract_cover_entry:
  assumes b: "bucket_name f" and r: "covers_ready wd cs zips t"
  shows "covers_ready wd cs zips (snd (extract_cover_entry zf (join wd [''Imageswk'', cs]) f t)) \<and>
         frame is_unpack_event t (snd (extract_cover_entry zf (join wd [''Imageswk'', cs]) f t))"
proof -
  let ?td = "join wd [''Imageswk'', cs]"
  from r have d: "set (shard_dirs wd cs) \<subseteq> dirs t" by (simp add: covers_ready_def)
  show ?thesis
  proof (cases "path_exists t (join ?td [last4 (fst (splitext f)), f])")
    case True
    with r show ?thesis by (simp add: extract_cover_entry_def Let_def frame_refl)
  next
    case False
    show ?thesis
    proof (cases "getinfo zf f")
      case None
      with False r show ?thesis
        by (simp add: extract_cover_entry_def zip_extract_def Let_def frame_refl)
    next
      case (Some data)
      have "frame is_unpack_event t
          (write_file (join ?td [last4 (fst (splitext f)), f]) (Blob data) t)"
        by (rule frame_write_file) simp
      with False Some r show ?thesis
        by (simp add: extract_cover_entry_def zip_extract_def Let_def
              extract_member_bucket [OF b d] covers_ready_write)
    qed
  qed
qed

lemma ready_extract_cover_zip:
  assumes r: "covers_ready wd cs zips t" and z: "z \<in> set zips"
  shows "covers_ready wd cs zips (snd (extract_cover_zip (z, join wd [''Imageswk'', cs]) t)) \<and>
         frame is_unpack_event t (snd (extract_cover_zip (z, join wd [''Imageswk'', cs]) t))"
proof -
  let ?td = "join wd [''Imageswk'', cs]"
  let ?t1 = "emit (ExtractTask z ?td) t"
  have 1: "frame is_unpack_event t ?t1" by (rule frame_emit) simp
  have r1: "covers_ready wd cs zips ?t1" using r by (simp add: covers_ready_def emit_def)
  show ?thesis
  proof (cases "open_zip ?t1 z")
    case (Inl e)
    with 1 r1 show ?thesis by (simp add: extract_cover_zip_def Let_def)
  next
    case (Inr zf)
    from r1 have "archives_bucketed zips (files ?t1)" by (simp add: covers_ready_def)
    from open_zip_bucketed [OF this z Inr] have names: "list_all bucket_name (namelist zf)" .
    have "covers_ready wd cs zips (snd (for_each (extract_cover_entry zf ?td) (namelist zf) ?t1)) \<and>
          frame is_unpack_event ?t1 (snd (for_each (extract_cover_entry zf ?td) (namelist zf) ?t1))"
    proof (rule for_each_lift [where R = "frame is_unpack_event" and I = "covers_ready wd cs zips"])
      show "frame is_unpack_event s s" for s by (rule frame_refl)
      show "frame is_unpack_event a c" if "frame is_unpack_event a b" "frame is_unpack_event b c"
        for a b c using that by (rule frame_trans)
      show "covers_ready wd cs zips (snd (extract_cover_entry zf ?td x s)) \<and>
            frame is_unpack_event s (snd (extract_cover_entry zf ?td x s))"
        if "x \<in> set (namelist zf)" and "covers_ready wd cs zips s" for x s
      proof -
        from that(1) names have "bucket_name x" by (simp add: list_all_iff)
        then show ?thesis using that(2) by (rule ready_extract_cover_entry)
      qed
      show "covers_ready wd cs zips ?t1" by (rule r1)
    qed
    with Inr frame_trans [OF 1] show ?thesis by (simp add: extract_cover_zip_def Let_def)
  qed
qed

lemma ready_cover_workers:
  assumes r: "covers_ready wd cs zips t"
  shows "frame is_unpack_event t
           (snd (starmap procs extract_cover_zip (map (\<lambda>z. (z, join wd [''Imageswk'', cs])) zips) t))"
proof -
  have "covers_ready wd cs zips
           (snd (starmap procs extract_cover_zip (map (\<lambda>z. (z, join wd [''Imageswk'', cs])) zips) t)) \<and>
        frame is_unpack_event t
           (snd (starmap procs extract_cover_zip (map (\<lambda>z. (z, join wd [''Imageswk'', cs])) zips) t))"
  proof (rule starmap_lift [where R = "frame is_unpack_event" and I = "covers_ready wd cs zips"])
    show "frame is_unpack_event s s" for s by (rule frame_refl)
    show "frame is_unpack_event a c" if "frame is_unpack_event a b" "frame is_unpack_event b c"
      for a b c using that by (rule frame_trans)
    show "covers_ready wd cs zips (snd (extract_cover_zip x s)) \<and>
          frame is_unpack_event s (snd (extract_cover_zip x s))"
      if "x \<in> set (map (\<lambda>z. (z, join wd [''Imageswk'', cs])) zips)" and "covers_ready wd cs zips s" for x s
    proof -
      from that(1) obtain z where "x = (z, join wd [''Imageswk'', cs])" "z \<in> set zips" by auto
      then show ?thesis using ready_extract_cover_zip [OF that(2), of z] by simp
    qed
    show "covers_ready wd cs zips t" by (rule r)
  qed
  then show ?thesis by simp
qed

lemma seq_errs:
  assumes step: "\<And>f s. f \<in> set fs \<Longrightarrow> I s \<Longrightarrow> I (snd (f s)) \<and> (\<forall>e. fst (f s) = Some e \<longrightarrow> E e)"
  shows "I s \<Longrightarrow> I (snd (seq fs s)) \<and> (\<forall>e. fst (seq fs s) = Some e \<longrightarrow> E e)"
  using step
proof (induction fs arbitrary: s)
  case Nil
  then show ?case by simp
next
  case (Cons f fs)
  from Cons.prems have 1: "I (snd (f s)) \<and> (\<forall>e. fst (f s) = Some e \<longrightarrow> E e)" by (meson list.set_intros(1))
  show ?case
  proof (cases "f s")
    case (Pair r s1)
    show ?thesis
    proof (cases r)
      case None
      from 1 Pair have i1: "I s1" by simp
      have st: "I (snd (g t)) \<and> (\<forall>e. fst (g t) = Some e \<longrightarrow> E e)" if "g \<in> set fs" "I t" for g t
        using that Cons.prems(2) [of g t] by simp
      have "I (snd (seq fs s1)) \<and> (\<forall>e. fst (seq fs s1) = Some e \<longrightarrow> E e)"
        by (rule Cons.IH [OF i1]) (rule st; assumption)
      with Pair None show ?thesis by simp
    next
      case (Some e)
      with 1 Pair show ?thesis by simp
    qed
  qed
qed

lemma for_each_errs:
  assumes step: "\<And>x s. x \<in> set xs \<Longrightarrow> I s \<Longrightarrow> I (snd (f x s)) \<and> (\<forall>e. fst (f x s) = Some e \<longrightarrow> E e)"
  shows "I s \<Longrightarrow> I (snd (for_each f xs s)) \<and> (\<forall>e. fst (for_each f xs s) = Some e \<longrightarrow> E e)"
  unfolding for_each_def
  by (rule seq_errs [where I = I and E = E]) (auto simp: step)

lemma run_chunks_errs:
  assumes step: "\<And>x s. x \<in> set (concat cs) \<Longrightarrow> I s \<Longrightarrow> I (snd (f x s)) \<and> (\<forall>e. fst (f x s) = Some e \<longrightarrow> E e)"
  shows "I s \<Longrightarrow> I (snd (run_chunks f cs s)) \<and> (\<forall>e. fst (run_chunks f cs s) = Some e \<longrightarrow> E e)"
  using step
proof (induction cs arbitrary: s)
  case Nil
  then show ?case by simp
next
  case (Cons c cs)
  have 1: "I (snd (for_each f c s)) \<and> (\<forall>e. fst (for_each f c s) = Some e \<longrightarrow> E e)"
  proof (rule for_each_errs [where I = I and E = E])
    show "I (snd (f x s)) \<and> (\<forall>e. fst (f x s) = Some e \<longrightarrow> E e)" if "x \<in> set c" "I s" for x s
      using that Cons.prems(2) [of x s] by simp
    show "I s" by (rule Cons.prems(1))
  qed
  obtain r s1 where p: "for_each f c s = (r, s1)" by (cases "for_each f c s")
  with 1 have i1: "I s1" and e1: "\<forall>e. r = Some e \<longrightarrow> E e" by simp_all
  have st: "I (snd (f x t)) \<and> (\<forall>e. fst (f x t) = Some e \<longrightarrow> E e)" if "x \<in> set (concat cs)" "I t" for x t
    using that Cons.prems(2) [of x t] by simp
  have 2: "I (snd (run_chunks f cs s1)) \<and> (\<forall>e. fst (run_chunks f cs s1) = Some e \<longrightarrow> E e)"
    by (rule Cons.IH [OF i1]) (rule st; assumption)
  obtain r' s2 where q: "run_chunks f cs s1 = (r', s2)" by (cases "run_chunks f cs s1")
  with 2 have 3: "I s2" "\<forall>e. r' = Some e \<longrightarrow> E e" by simp_all
  with p q e1 show ?case by (cases r) simp_all
qed

lemma starmap_errs:
  assumes step: "\<And>x s. x \<in> set xs \<Longrightarrow> I s \<Longrightarrow> I (snd (f x s)) \<and> (\<forall>e. fst (f x s) = Some e \<longrightarrow> E e)"
      and init: "I s"
  shows "\<forall>e. fst (starmap procs f xs s) = Some e \<longrightarrow> E e"
proof -
  have "I (snd (starmap procs f xs s)) \<and> (\<forall>e. fst (starmap procs f xs s) = Some e \<longrightarrow> E e)"
    unfolding starmap_def
  proof (rule run_chunks_errs [where I = I and E = E])
    show "I (snd (f x s)) \<and> (\<forall>e. fst (f x s) = Some e \<longrightarrow> E e)"
      if "x \<in> set (concat (chunked (chunksize (length xs) procs) xs))" and i: "I s" for x s
    proof -
      from that(1) have "x \<in> set xs"
        using set_chunked [of "chunksize (length xs) procs" xs] by (rule_tac subsetD)
      then show ?thesis using i by (rule step)
    qed
    show "I s" by (rule init)
  qed
  then show ?thesis by simp
qed

lemma ready_entry_error:
  assumes b: "bucket_name f" and r: "covers_ready wd cs zips t"
  shows "fst (extract_cover_entry zf (join wd [''Imageswk'', cs]) f t) \<noteq> Some FileExistsError"
proof -
  let ?td = "join wd [''Imageswk'', cs]"
  from r have d: "set (shard_dirs wd cs) \<subseteq> dirs t" by (simp add: covers_ready_def)
  show ?thesis
    by (simp add: extract_cover_entry_def zip_extract_def Let_def extract_member_bucket [OF b d]
          split: option.splits)
qed

lemma ready_zip_error:
  assumes r: "covers_ready wd cs zips t" and z: "z \<in> set zips"
  shows "fst (extract_cover_zip (z, join wd [''Imageswk'', cs]) t) \<noteq> Some FileExistsError"
proof -
  let ?td = "join wd [''Imageswk'', cs]"
  let ?t1 = "emit (ExtractTask z ?td) t"
  have r1: "covers_ready wd cs zips ?t1" using r by (simp add: covers_ready_def emit_def)
  show ?thesis
  proof (cases "open_zip ?t1 z")
    case (Inl e)
    then have "e \<noteq> FileExistsError"
      by (auto simp: open_zip_def split: option.splits content.splits)
    with Inl show ?thesis by (simp add: extract_cover_zip_def Let_def)
  next
    case (Inr zf)
    from r1 have "archives_bucketed zips (files ?t1)" by (simp add: covers_ready_def)
    from open_zip_bucketed [OF this z Inr] have names: "list_all bucket_name (namelist zf)" .
    have "covers_ready wd cs zips (snd (for_each (extract_cover_entry zf ?td) (namelist zf) ?t1)) \<and>
          (\<forall>e. fst (for_each (extract_cover_entry zf ?td) (namelist zf) ?t1) = Some e \<longrightarrow> e \<noteq> FileExistsError)"
    proof (rule for_each_errs [where I = "covers_ready wd cs zips" and E = "\<lambda>e. e \<noteq> FileExistsError"])
      show "covers_ready wd cs zips (snd (extract_cover_entry zf ?td x s)) \<and>
            (\<forall>e. fst (extract_cover_entry zf ?td x s) = Some e \<longrightarrow> e \<noteq> FileExistsError)"
        if "x \<in> set (namelist zf)" and "covers_ready wd cs zips s" for x s
      proof -
        from that(1) names have b: "bucket_name x" by (simp add: list_all_iff)
        from ready_extract_cover_entry [OF b that(2)] ready_entry_error [OF b that(2)]
        show ?thesis by auto
      qed
      show "covers_ready wd cs zips ?t1" by (rule r1)
    qed
    with Inr show ?thesis by (auto simp: extract_cover_zip_def Let_def)
  qed
qed

lemma ready_workers_error:
  assumes r: "covers_ready wd cs zips t"
  shows "fst (starmap procs extract_cover_zip (map (\<lambda>z. (z, join wd [''Imageswk'', cs])) zips) t)
         \<noteq> Some FileExistsError"
proof -
  have "\<forall>e. fst (starmap procs extract_cover_zip (map (\<lambda>z. (z, join wd [''Imageswk'', cs])) zips) t) = Some e
          \<longrightarrow> e \<noteq> FileExistsError"
  proof (rule starmap_errs [where I = "covers_ready wd cs zips" and E = "\<lambda>e. e \<noteq> FileExistsError"])
    show "covers_ready wd cs zips (snd (extract_cover_zip x s)) \<and>
          (\<forall>e. fst (extract_cover_zip x s) = Some e \<longrightarrow> e \<noteq> FileExistsError)"
      if "x \<in> set (map (\<lambda>z. (z, join wd [''Imageswk'', cs])) zips)" and "covers_ready wd cs zips s" for x s
    proof -
      from that(1) obtain z where "x = (z, join wd [''Imageswk'', cs])" "z \<in> set zips" by auto
      then show ?thesis
        using ready_extract_cover_zip [OF that(2), of z] ready_zip_error [OF that(2), of z] by auto
    qed
    show "covers_ready wd cs zips t" by (rule r)
  qed
  then show ?thesis by blast
qed

lemma shard_dirs_length: "length (shard_dirs wd cs) = 10000"
  by (simp add: shard_dirs_def)

lemma unpack_is_worker: "is_unpack_event e \<Longrightarrow> worker_event D e"
  by (cases e) simp_all

text \<open>
  C5. With \<open>cover_size\<close> set, \<open>unzip_covers_threaded\<close> first runs the loop of lines 185-187
  over the 10,000 names of \<open>shard_dirs\<close>. If the loop raises, the function stops with
  that exception and no extraction was entered. If it returns, in the world \<open>s1\<close>, it
  has called \<open>os.makedirs\<close> for each of the 10,000 directories and all of them exist;
  only then does the pool run, and every event after \<open>s1\<close> is an event of a worker:
  the entry of an extraction, a file written, or a directory made that is not one of the
  10,000. When every member of the archives \<open>zips\<close> is named for one of the 10,000
  buckets, the workers make no directory at all, and the call does not raise
  FileExistsError, whatever the number of worker processes. The pool of the model runs
  its tasks one after the other; that no worker makes a directory is what makes the
  order of the tasks irrelevant to this.
\<close>

theorem shard_dirs_precreated:
  assumes "cover_size (glob s) = Some cs"
  shows "case for_each (makedirs True) (shard_dirs wd cs) s of
           (Some e, s1) \<Rightarrow>
             unzip_covers_threaded env zips wd s = (Some e, s1) \<and> extracted (new_events s s1) = []
         | (None, s1) \<Rightarrow>
             length (shard_dirs wd cs) = 10000 \<and>
             trace s1 = trace s @ map MakeDirs (shard_dirs wd cs) \<and>
             set (shard_dirs wd cs) \<subseteq> dirs s1 \<and>
             (let s2 = snd (unzip_covers_threaded env zips wd s)
              in trace s2 = trace s1 @ new_events s1 s2 \<and>
                 list_all (worker_event (set (shard_dirs wd cs))) (new_events s1 s2) \<and>
                 (archives_bucketed zips (files s) \<longrightarrow>
                    list_all is_unpack_event (new_events s1 s2) \<and>
                    fst (unzip_covers_threaded env zips wd s) \<noteq> Some FileExistsError))"
proof -
  let ?ds = "shard_dirs wd cs"
  let ?args = "map (\<lambda>z. (z, join wd [''Imageswk'', cs])) zips"
  obtain r s1 where p: "for_each (makedirs True) ?ds s = (r, s1)"
    by (cases "for_each (makedirs True) ?ds s")
  show ?thesis
  proof (cases r)
    case (Some e)
    from precreate_events [of ?ds s] p obtain n where
      "trace s1 = trace s @ map MakeDirs (take n ?ds)" by auto
    then have "extracted (new_events s s1) = []" by (simp add: new_events_def extracted_MakeDirs)
    moreover have "unzip_covers_threaded env zips wd s = (Some e, s1)"
      using assms p Some by (simp add: unzip_covers_threaded_def)
    ultimately show ?thesis using p Some by simp
  next
    case None
    from precreate_done [of ?ds s s1] p None have
      d: "trace s1 = trace s @ map MakeDirs ?ds" "set ?ds \<subseteq> dirs s1" "files s1 = files s"
      by simp_all
    obtain r2 s2 where w: "starmap (processes env) extract_cover_zip ?args s1 = (r2, s2)"
      by (cases "starmap (processes env) extract_cover_zip ?args s1")
    have u: "unzip_covers_threaded env zips wd s = (r2, s2)"
      using assms p None w by (cases r2) (simp_all add: unzip_covers_threaded_def)
    from wframe_cover_workers [OF d(2), of "processes env" ?args] w
    have "frame (worker_event (set ?ds)) s1 s2" by simp
    from frame_new_events [OF this]
    have f: "trace s2 = trace s1 @ new_events s1 s2" "list_all (worker_event (set ?ds)) (new_events s1 s2)"
      by simp_all
    have b: "list_all is_unpack_event (new_events s1 s2) \<and> r2 \<noteq> Some FileExistsError"
      if a: "archives_bucketed zips (files s)"
    proof -
      from a d(2,3) have rdy: "covers_ready wd cs zips s1" by (simp add: covers_ready_def)
      from ready_cover_workers [OF rdy, of "processes env"] w
      have "frame is_unpack_event s1 s2" by simp
      from frame_new_events [OF this] have "list_all is_unpack_event (new_events s1 s2)" by simp
      moreover from ready_workers_error [OF rdy, of "processes env"] w
      have "r2 \<noteq> Some FileExistsError" by simp
      ultimately show ?thesis by simp
    qed
    from d f b show ?thesis by (simp add: p None u shard_dirs_length Let_def)
  qed
qed

lemma fmt04_9518: "fmt04 9518 = ''9518''"
  by (simp add: fmt04_def dec_ge10 dec_lt10 digit_def)

lemma fmt04_9999: "fmt04 9999 = ''9999''"
  by (simp add: fmt04_def dec_ge10 dec_lt10 digit_def)

lemma fmt04_0: "fmt04 0 = ''0000''"
  by (simp add: fmt04_def dec_lt10 digit_def numeral_3_eq_3)

lemma jpg_bucket: "bucket_name ''9780141439518.jpg''"
proof -
  have "fmt04 9518 \<in> fmt04 ` set [0..<10000]" by (rule imageI) simp
  then have "''9518'' \<in> set (map fmt04 [0..<10000])" by (simp only: set_map fmt04_9518)
  then show ?thesis by (simp add: bucket_name_def feed_key del: set_map set_upt)
qed

lemma feed_cover_bucketed: "archives_bucketed [''/d/Imageswk/c1.zip''] (files feed_downloaded)"
  using jpg_bucket by (simp add: archives_bucketed_def feed_downloaded_def namelist_def)

lemma shard_dirs_ends:
  "shard_dirs ''/w'' ''j400w'' ! 0 = ''/w/Imageswk/j400w/0000''"
  "shard_dirs ''/w'' ''j400w'' ! 9999 = ''/w/Imageswk/j400w/9999''"
  by (simp_all add: ex_shard_dirs fmt04_0 fmt04_9999)

lemma feed_covers_run:
  "\<exists>sp. for_each (makedirs True) (shard_dirs ''/w'' ''j400w'') feed_downloaded = (None, sp) \<and>
     unzip_covers_threaded feed_env [''/d/Imageswk/c1.zip''] ''/w'' feed_downloaded =
       (None, write_file ''/w/Imageswk/j400w/9518/9780141439518.jpg'' (Blob ''JPEG'')
                (emit (ExtractTask ''/d/Imageswk/c1.zip'' ''/w/Imageswk/j400w'') sp))"
proof -
  let ?jpg = "''/w/Imageswk/j400w/9518/9780141439518.jpg''"
  let ?zf = "[(''9780141439518.jpg'', ''JPEG'')]"
  let ?ds = "shard_dirs ''/w'' ''j400w''"
  have c: "cover_size (glob feed_downloaded) = Some ''j400w''"
    by (simp add: feed_downloaded_def ex_configured_def)
  from precreate_ok [OF feed_no_file_in_the_way] obtain sp where
    sp: "for_each (makedirs True) ?ds feed_downloaded = (None, sp)"
    "files sp = files feed_downloaded" "set ?ds \<subseteq> dirs sp"
    by blast
  from precreate_dirs [of True ?ds feed_downloaded] sp(1)
  have "dirs sp \<subseteq> dirs feed_downloaded \<union> {q. \<exists>d \<in> set ?ds. prefix q d}" by simp
  moreover have "dirs feed_downloaded = {}"
    by (simp add: feed_downloaded_def ex_configured_def empty_world_def)
  ultimately have nd: "?jpg \<notin> dirs sp"
    using jpg_not_above_shard by (auto simp: ex_shard_dirs)
  let ?se = "emit (ExtractTask ''/d/Imageswk/c1.zip'' ''/w/Imageswk/j400w'') sp"
  have fe: "files ?se = files feed_downloaded" "dirs ?se = dirs sp" by (simp_all add: emit_def sp(2))
  have td: "join ''/w'' [''Imageswk'', ''j400w''] = ''/w/Imageswk/j400w''"
    by (simp add: join_def join2_def)
  have jp: "join ''/w/Imageswk/j400w'' [''9518'', ''9780141439518.jpg''] = ?jpg"
    by (simp add: join_def join2_def)
  have ne: "\<not> path_exists ?se ?jpg" using nd by (simp add: path_exists_def fe feed_downloaded_def)
  have "set ?ds \<subseteq> dirs ?se" using sp(3) by (simp add: fe)
  from extract_member_bucket [OF jpg_bucket this, of "''JPEG''"]
  have em: "extract_member ''9780141439518.jpg'' ''JPEG'' (join ''/w/Imageswk/j400w'' [''9518'']) ?se =
      (None, write_file ?jpg (Blob ''JPEG'') ?se)"
    by (simp only: td feed_key jp)
  have oz: "open_zip ?se ''/d/Imageswk/c1.zip'' = Inr ?zf"
    by (simp add: open_zip_def fe feed_downloaded_def)
  have en: "extract_cover_entry ?zf ''/w/Imageswk/j400w'' ''9780141439518.jpg'' ?se =
      (None, write_file ?jpg (Blob ''JPEG'') ?se)"
    using ne by (simp add: extract_cover_entry_def Let_def feed_key jp zip_extract_def getinfo_def em)
  have u: "unzip_covers_threaded feed_env [''/d/Imageswk/c1.zip''] ''/w'' feed_downloaded =
      (None, write_file ?jpg (Blob ''JPEG'') ?se)"
    by (simp add: unzip_covers_threaded_def c sp(1) td starmap_single feed_env_simps(1)
          extract_cover_zip_def Let_def oz namelist_def for_each_Cons en)
  from sp(1) u show ?thesis by (intro exI [of _ sp] conjI)
qed

theorem shard_dirs_precreated_witness:
  "cover_size (glob feed_downloaded) = Some ''j400w'' \<and>
   archives_bucketed [''/d/Imageswk/c1.zip''] (files feed_downloaded) \<and>
   shard_dirs ''/w'' ''j400w'' ! 0 = ''/w/Imageswk/j400w/0000'' \<and>
   shard_dirs ''/w'' ''j400w'' ! 9999 = ''/w/Imageswk/j400w/9999'' \<and>
   (\<exists>s1. for_each (makedirs True) (shard_dirs ''/w'' ''j400w'') feed_downloaded = (None, s1) \<and>
      length (shard_dirs ''/w'' ''j400w'') = 10000 \<and>
      trace s1 = trace feed_downloaded @ map MakeDirs (shard_dirs ''/w'' ''j400w'') \<and>
      set (shard_dirs ''/w'' ''j400w'') \<subseteq> dirs s1 \<and>
      new_events s1 (snd (unzip_covers_threaded feed_env [''/d/Imageswk/c1.zip''] ''/w'' feed_downloaded)) =
        [ExtractTask ''/d/Imageswk/c1.zip'' ''/w/Imageswk/j400w'',
         WriteFile ''/w/Imageswk/j400w/9518/9780141439518.jpg''] \<and>
      list_all is_unpack_event
        (new_events s1 (snd (unzip_covers_threaded feed_env [''/d/Imageswk/c1.zip''] ''/w'' feed_downloaded))) \<and>
      fst (unzip_covers_threaded feed_env [''/d/Imageswk/c1.zip''] ''/w'' feed_downloaded) = None)"
proof -
  let ?jpg = "''/w/Imageswk/j400w/9518/9780141439518.jpg''"
  let ?ds = "shard_dirs ''/w'' ''j400w''"
  have c: "cover_size (glob feed_downloaded) = Some ''j400w''"
    by (simp add: feed_downloaded_def ex_configured_def)
  from feed_covers_run obtain sp where
    sp: "for_each (makedirs True) ?ds feed_downloaded = (None, sp)"
    and u: "unzip_covers_threaded feed_env [''/d/Imageswk/c1.zip''] ''/w'' feed_downloaded =
       (None, write_file ?jpg (Blob ''JPEG'')
                (emit (ExtractTask ''/d/Imageswk/c1.zip'' ''/w/Imageswk/j400w'') sp))"
    by (elim exE conjE)
  let ?s2 = "write_file ?jpg (Blob ''JPEG'') (emit (ExtractTask ''/d/Imageswk/c1.zip'' ''/w/Imageswk/j400w'') sp)"
  have nev: "new_events sp ?s2 = [ExtractTask ''/d/Imageswk/c1.zip'' ''/w/Imageswk/j400w'', WriteFile ?jpg]"
    by (simp add: new_events_def write_file_def emit_def)
  note T = shard_dirs_precreated [OF c, of "''/w''" feed_env "[''/d/Imageswk/c1.zip'']",
      unfolded sp prod.case option.case Let_def u snd_conv fst_conv]
  have t1: "length ?ds = 10000" by (rule T [THEN conjunct1])
  have t2: "trace sp = trace feed_downloaded @ map MakeDirs ?ds"
    by (rule T [THEN conjunct2, THEN conjunct1])
  have t3: "set ?ds \<subseteq> dirs sp" by (rule T [THEN conjunct2, THEN conjunct2, THEN conjunct1])
  have t4: "list_all is_unpack_event (new_events sp ?s2)"
    by (rule T [THEN conjunct2, THEN conjunct2, THEN conjunct2, THEN conjunct2, THEN conjunct2,
          THEN mp, OF feed_cover_bucketed, THEN conjunct1])
  have "for_each (makedirs True) ?ds feed_downloaded = (None, sp) \<and>
      length ?ds = 10000 \<and>
      trace sp = trace feed_downloaded @ map MakeDirs ?ds \<and>
      set ?ds \<subseteq> dirs sp \<and>
      new_events sp (snd (unzip_covers_threaded feed_env [''/d/Imageswk/c1.zip''] ''/w'' feed_downloaded)) =
        [ExtractTask ''/d/Imageswk/c1.zip'' ''/w/Imageswk/j400w'', WriteFile ?jpg] \<and>
      list_all is_unpack_event
        (new_events sp (snd (unzip_covers_threaded feed_env [''/d/Imageswk/c1.zip''] ''/w'' feed_downloaded))) \<and>
      fst (unzip_covers_threaded feed_env [''/d/Imageswk/c1.zip''] ''/w'' feed_downloaded) = None"
    unfolding u snd_conv fst_conv using sp t1 t2 t3 nev t4 by (intro conjI) (assumption | rule refl)+
  then have "\<exists>s1. for_each (makedirs True) ?ds feed_downloaded = (None, s1) \<and>
      length ?ds = 10000 \<and>
      trace s1 = trace feed_downloaded @ map MakeDirs ?ds \<and>
      set ?ds \<subseteq> dirs s1 \<and>
      new_events s1 (snd (unzip_covers_threaded feed_env [''/d/Imageswk/c1.zip''] ''/w'' feed_downloaded)) =
        [ExtractTask ''/d/Imageswk/c1.zip'' ''/w/Imageswk/j400w'', WriteFile ?jpg] \<and>
      list_all is_unpack_event
        (new_events s1 (snd (unzip_covers_threaded feed_env [''/d/Imageswk/c1.zip''] ''/w'' feed_downloaded))) \<and>
      fst (unzip_covers_threaded feed_env [''/d/Imageswk/c1.zip''] ''/w'' feed_downloaded) = None"
    by (intro exI [of _ sp])
  with c feed_cover_bucketed shard_dirs_ends show ?thesis by (intro conjI)
qed

section \<open>The directory of a flat extraction is computed by deleting a substring\<close>

lemma remove_all_Nil: "remove_all old [] = []"
  by (subst remove_all.simps) simp

lemma remove_all_absent: "\<not> sublist old s \<Longrightarrow> remove_all old s = s"
proof (induction s)
  case Nil
  show ?case by (rule remove_all_Nil)
next
  case (Cons x xs)
  from Cons.prems have np: "\<not> prefix old (x # xs)" and ns: "\<not> sublist old xs"
    by (simp_all add: sublist_Cons_right)
  have "take (length old) (x # xs) \<noteq> old"
  proof
    assume "take (length old) (x # xs) = old"
    then have "prefix old (x # xs)" using take_is_prefix [of "length old" "x # xs"] by simp
    with np show False ..
  qed
  then show ?case using Cons.IH [OF ns] by (subst remove_all.simps) simp
qed

lemma remove_all_prefix:
  assumes "download_dir \<noteq> []" and "\<not> sublist download_dir rest"
  shows "remove_all download_dir (download_dir @ rest) = rest"
  using assms remove_all_absent [of download_dir rest] by (subst remove_all.simps) simp

lemma onix_extract_dir_prefixed:
  assumes "dirname z = download_dir @ rest" and "download_dir \<noteq> []"
      and "\<not> sublist download_dir rest"
  shows "onix_extract_dir download_dir working_dir z = join working_dir [lstrip_slash rest] \<and>
         onix_extract_dir download_dir working_dir z = join working_dir [prefix_removed download_dir z]"
  using remove_all_prefix [OF assms(2,3)]
  by (simp add: onix_extract_dir_def prefix_removed_def assms(1))

text \<open>
  C8 says that the entries of an ONIX or backlist archive land under the working
  directory joined with the archive's parent directory less the download directory
  prefix. Line 171 deletes every occurrence of \<open>download_dir\<close> in the parent directory
  (\<open>str.replace\<close>); by \<open>onix_extract_dir_prefixed\<close> this is the prefix removal when
  \<open>download_dir\<close> does not occur again after the prefix. Here the download directory is
  \<open>/ONIX\<close>: the archive \<open>/ONIX/ONIX/o1.zip\<close> has the parent \<open>/ONIX/ONIX\<close>, prefix
  removal gives \<open>/w/ONIX\<close>, but both occurrences are deleted, the directory computed
  is \<open>/w/\<close>, and the entry \<open>a.xml\<close> lands at \<open>/w/a.xml\<close>; nothing is at
  \<open>/w/ONIX/a.xml\<close>.
\<close>

theorem onix_dir_substring_slip:
  "dirname ''/ONIX/ONIX/o1.zip'' = ''/ONIX/ONIX'' \<and>
   join ''/w'' [prefix_removed ''/ONIX'' ''/ONIX/ONIX/o1.zip''] = ''/w/ONIX'' \<and>
   onix_extract_dir ''/ONIX'' ''/w'' ''/ONIX/ONIX/o1.zip'' = ''/w/'' \<and>
   fst (unzip_onix_threaded ex_env [''/ONIX/ONIX/o1.zip''] ''/ONIX'' ''/w'' slip_world) = None \<and>
   files (snd (unzip_onix_threaded ex_env [''/ONIX/ONIX/o1.zip''] ''/ONIX'' ''/w'' slip_world)) =
     [(''/w/a.xml'', Blob ''A''), (''/ONIX/ONIX/o1.zip'', ZipArchive [(''a.xml'', ''A'')])] \<and>
   map_of (files (snd (unzip_onix_threaded ex_env [''/ONIX/ONIX/o1.zip''] ''/ONIX'' ''/w'' slip_world)))
     ''/w/ONIX/a.xml'' = None"
proof -
  have dn: "dirname ''/ONIX/ONIX/o1.zip'' = ''/ONIX/ONIX''"
    by (simp add: dirname_def rfind_def Let_def rstrip_slash_def)
  have pr: "join ''/w'' [prefix_removed ''/ONIX'' ''/ONIX/ONIX/o1.zip''] = ''/w/ONIX''"
    by (simp add: prefix_removed_def dn lstrip_slash_def join_def join2_def)
  have d: "onix_extract_dir ''/ONIX'' ''/w'' ''/ONIX/ONIX/o1.zip'' = ''/w/''"
    by (simp add: onix_extract_dir_def dn remove_all.simps lstrip_slash_def join_def join2_def)
  have m: "map_of (files slip_world) ''/ONIX/ONIX/o1.zip'' = Some (ZipArchive [(''a.xml'', ''A'')])"
    by (simp add: slip_world_def)
  from extract_zip_single [OF m feed_arc(1), of "''/w/''"] obtain s' where
    s': "extract_zip (''/ONIX/ONIX/o1.zip'', ''/w/'') slip_world = (None, s')"
    "files s' = (join2 ''/w/'' ''a.xml'', Blob ''A'') #
       filter (\<lambda>e. fst e \<noteq> join2 ''/w/'' ''a.xml'') (files slip_world)"
    by auto
  have p: "processes ex_env = 2" by (simp add: processes_def ex_env_def)
  have u: "unzip_onix_threaded ex_env [''/ONIX/ONIX/o1.zip''] ''/ONIX'' ''/w'' slip_world = (None, s')"
    by (simp add: unzip_onix_threaded_def d starmap_single p s'(1))
  have f: "files s' = [(''/w/a.xml'', Blob ''A''), (''/ONIX/ONIX/o1.zip'', ZipArchive [(''a.xml'', ''A'')])]"
    by (simp add: s'(2) join2_def slip_world_def)
  show ?thesis by (simp add: dn pr d u f)
qed

end
